theory Spec2Isabelle
  imports Complex_Main "HOL-Library.Multiset"
begin

section \<open>Arrow Flight client (src/src/flight-client.js)\<close>

text \<open>
  Conventions of the embedding.
  \<^item> A Node \<open>Buffer\<close> is a byte string, modelled as \<open>string\<close> (a list of 8-bit characters);
    \<open>Buffer.from(s)\<close> of a string is then the identity on the bytes of \<open>s\<close>.
  \<^item> A JavaScript \<open>Error\<close> is modelled by its \<open>message\<close>, the only part the client reads.
  \<^item> JavaScript numbers that hold clock readings and latencies are modelled as exact reals
    (rounding of IEEE doubles is not modelled); row and byte counts are naturals.
  \<^item> A promise that never settles is the value \<open>None\<close>; a settled promise is
    \<open>Some (Inl error)\<close> when rejected and \<open>Some (Inr value)\<close> when fulfilled.
\<close>

type_synonym buffer = string

datatype js_error = JsError (message: string)

subsection \<open>Protocol messages\<close>

record flight_descriptor =
  descriptor_type :: string
  path :: "buffer list"

record flight_ticket =
  ticket :: buffer

text \<open>The \<open>ticket\<close> field of an endpoint may be \<open>null\<close> (\<open>None\<close>).\<close>

record flight_endpoint =
  endpoint_ticket :: "flight_ticket option"

text \<open>The \<open>endpoint\<close> field of a FlightInfo may be missing (\<open>None\<close>), which the client tests.\<close>

record flight_info =
  endpoint :: "flight_endpoint list option"

text \<open>The \<open>data_body\<close> field of a FlightData message may be missing (\<open>None\<close>).\<close>

record flight_data =
  data_body :: "buffer option"

text \<open>What a server-streaming call emits: \<open>'data'\<close>, \<open>'end'\<close> and \<open>'error'\<close> events.\<close>

datatype stream_event = Data flight_data | End | StreamError js_error

text \<open>The RPCs a client issues, recorded in the order of the calls.\<close>

datatype rpc_call = Call_GetFlightInfo flight_descriptor | Call_DoGet buffer

text \<open>
  The \<open>rows\<close> argument: \<open>null\<close> (the default), or a number. The command line produces it
  with \<open>parseInt\<close>, whose results are the integers and \<open>NaN\<close>.
\<close>

datatype row_limit = Null | NaN | Num int

text \<open>
  Everything outside the client that one query depends on: the server's answer to
  GetFlightInfo (\<open>None\<close>: the callback is never invoked), the events of the DoGet stream for
  a ticket, the Arrow decoder \<open>tableFromIPC\<close> (an error when it throws, the table's
  \<open>numRows\<close> otherwise), the readings of \<open>performance.now()\<close> in the order of the calls,
  and the two \<open>TypeError\<close>s the runtime raises for \<open>Buffer.from(undefined)\<close> and for
  reading \<open>.ticket\<close> of \<open>null\<close>.
\<close>

record query_env =
  GetFlightInfo :: "flight_descriptor \<Rightarrow> (js_error + flight_info) option"
  DoGet :: "buffer \<Rightarrow> stream_event list"
  tableFromIPC :: "buffer \<Rightarrow> js_error + nat"
  now :: "nat \<Rightarrow> real"
  buffer_from_undefined :: js_error
  ticket_of_null :: js_error

subsection \<open>\<open>String(rows)\<close>\<close>

text \<open>
  \<open>String(n)\<close> of an integer-valued number: its decimal digits, with a leading minus sign
  for a negative one (as JavaScript prints every integer of magnitude below \<open>10^21\<close>).
\<close>

function String_nat :: "nat \<Rightarrow> string" where
  "String_nat n =
     (if n < 10 then [''0123456789'' ! n]
      else String_nat (n div 10) @ [''0123456789'' ! (n mod 10)])"
  by pat_completeness auto
termination
  by (relation "measure (\<lambda>n. n)") auto

definition String_int :: "int \<Rightarrow> string" where
  "String_int n = (if n < 0 then CHR ''-'' # String_nat (nat (- n)) else String_nat (nat n))"

subsection \<open>\<open>getFlightInfo\<close>\<close>

text \<open>Truthiness of \<open>rows\<close> in \<open>if (rows)\<close>: \<open>null\<close>, \<open>NaN\<close> and \<open>0\<close> are falsy.\<close>

fun truthy :: "row_limit \<Rightarrow> bool" where
  "truthy Null = False"
| "truthy NaN = False"
| "truthy (Num n) = (n \<noteq> 0)"

fun String_rows :: "row_limit \<Rightarrow> string" where
  "String_rows Null = ''null''"
| "String_rows NaN = ''NaN''"
| "String_rows (Num n) = String_int n"

text \<open>Lines 45-48: the path of the descriptor.\<close>

definition descriptor_path :: "string \<Rightarrow> string \<Rightarrow> row_limit \<Rightarrow> buffer list" where
  "descriptor_path tenantId datasetName rws =
     (let p = [tenantId, datasetName]
      in if truthy rws then p @ [String_rows rws] else p)"

text \<open>
  \<open>getFlightInfo\<close>: the calls issued and the promise returned. An \<open>undefined\<close> tenant
  (\<open>None\<close>) makes \<open>Buffer.from\<close> throw inside the promise executor, which rejects the
  promise before any call is made.
\<close>

definition getFlightInfo ::
  "query_env \<Rightarrow> string option \<Rightarrow> string \<Rightarrow> row_limit \<Rightarrow>
     rpc_call list \<times> (js_error + flight_info) option" where
  "getFlightInfo env tenantId datasetName rws =
     (case tenantId of
        None \<Rightarrow> ([], Some (Inl (buffer_from_undefined env)))
      | Some t \<Rightarrow>
          (let descriptor = \<lparr>descriptor_type = ''PATH'', path = descriptor_path t datasetName rws\<rparr>
           in ([Call_GetFlightInfo descriptor], GetFlightInfo env descriptor)))"

subsection \<open>\<open>doGet\<close>\<close>

text \<open>The value \<open>doGet\<close> resolves to; its \<open>table\<close> field is read by no caller and is left out.\<close>

record do_get_result =
  result_rows :: nat
  result_bytes :: nat

text \<open>The state the three handlers share: the \<open>chunks\<close> array and the promise.\<close>

record do_get_state =
  chunks :: "buffer list"
  promise :: "(js_error + do_get_result) option"

definition do_get_init :: do_get_state where
  "do_get_init = \<lparr>chunks = [], promise = None\<rparr>"

text \<open>\<open>resolve\<close> and \<open>reject\<close> settle the promise once; later calls do nothing.\<close>

definition settle :: "(js_error + do_get_result) \<Rightarrow> do_get_state \<Rightarrow> do_get_state" where
  "settle v s = (if promise s = None then s\<lparr>promise := Some v\<rparr> else s)"

text \<open>Lines 75-79, the \<open>'data'\<close> handler.\<close>

definition on_data :: "flight_data \<Rightarrow> do_get_state \<Rightarrow> do_get_state" where
  "on_data flightData s =
     (case data_body flightData of
        None \<Rightarrow> s
      | Some body \<Rightarrow> if length body > 0 then s\<lparr>chunks := chunks s @ [body]\<rparr> else s)"

text \<open>
  Lines 95-100, the loop over the chunks with its two accumulators; a decoder that throws
  leaves the loop with the error.
\<close>

fun decode_chunks ::
  "(buffer \<Rightarrow> js_error + nat) \<Rightarrow> buffer list \<Rightarrow> nat \<Rightarrow> nat \<Rightarrow> js_error + do_get_result" where
  "decode_chunks dec [] totalRows totalBytes =
     Inr \<lparr>result_rows = totalRows, result_bytes = totalBytes\<rparr>"
| "decode_chunks dec (chunk # cs) totalRows totalBytes =
     (case dec chunk of
        Inl e \<Rightarrow> Inl e
      | Inr numRows \<Rightarrow> decode_chunks dec cs (totalRows + numRows) (totalBytes + length chunk))"

text \<open>Lines 81-110, the \<open>'end'\<close> handler.\<close>

definition on_end :: "(buffer \<Rightarrow> js_error + nat) \<Rightarrow> do_get_state \<Rightarrow> do_get_state" where
  "on_end dec s =
     (if length (chunks s) = 0 then settle (Inr \<lparr>result_rows = 0, result_bytes = 0\<rparr>) s
      else settle (decode_chunks dec (chunks s) 0 0) s)"

text \<open>Lines 112-114, the \<open>'error'\<close> handler.\<close>

definition on_error :: "js_error \<Rightarrow> do_get_state \<Rightarrow> do_get_state" where
  "on_error err s = settle (Inl err) s"

fun on_event :: "(buffer \<Rightarrow> js_error + nat) \<Rightarrow> do_get_state \<Rightarrow> stream_event \<Rightarrow> do_get_state" where
  "on_event dec s (Data flightData) = on_data flightData s"
| "on_event dec s End = on_end dec s"
| "on_event dec s (StreamError err) = on_error err s"

text \<open>The promise of \<open>doGet\<close> after the stream has emitted the given events.\<close>

definition doGet_stream ::
  "(buffer \<Rightarrow> js_error + nat) \<Rightarrow> stream_event list \<Rightarrow> (js_error + do_get_result) option" where
  "doGet_stream dec events = promise (foldl (on_event dec) do_get_init events)"

text \<open>
  \<open>doGet\<close>: reading \<open>ticket.ticket\<close> of a \<open>null\<close> ticket throws inside the executor and
  rejects the promise before the call is made.
\<close>

definition doGet ::
  "query_env \<Rightarrow> flight_ticket option \<Rightarrow> rpc_call list \<times> (js_error + do_get_result) option" where
  "doGet env tk =
     (case tk of
        None \<Rightarrow> ([], Some (Inl (ticket_of_null env)))
      | Some t \<Rightarrow>
          ([Call_DoGet (ticket t)], doGet_stream (tableFromIPC env) (DoGet env (ticket t))))"

subsection \<open>\<open>queryDataset\<close>\<close>

datatype query_status = Success | Error

text \<open>A QueryResult object; a property the object does not have is \<open>None\<close>.\<close>

record query_result =
  status :: query_status
  tenant_id :: "string option"
  dataset :: string
  rows :: "nat option"
  bytes :: "nat option"
  metadata_latency_ms :: "real option"
  transfer_latency_ms :: "real option"
  total_latency_ms :: real
  error :: "string option"

text \<open>Lines 152-160, the object built in the \<open>catch\<close> block.\<close>

definition error_result :: "string option \<Rightarrow> string \<Rightarrow> js_error \<Rightarrow> real \<Rightarrow> query_result" where
  "error_result tenantId ds err elapsed =
     \<lparr>status = Error, tenant_id = tenantId, dataset = ds, rows = None, bytes = None,
      metadata_latency_ms = None, transfer_latency_ms = None,
      total_latency_ms = elapsed, error = Some (message err)\<rparr>"

text \<open>
  Lines 130 and 136: the test \<open>!info.endpoint || info.endpoint.length === 0\<close> and, when it
  fails, the element \<open>info.endpoint[0]\<close>. \<open>None\<close> is the case in which the test holds.
\<close>

definition first_endpoint :: "flight_info \<Rightarrow> flight_endpoint option" where
  "first_endpoint info =
     (case endpoint info of
        None \<Rightarrow> None
      | Some eps \<Rightarrow> (case eps of [] \<Rightarrow> None | ep # rest \<Rightarrow> Some ep))"

text \<open>
  \<open>queryDataset\<close>: the calls issued and the promise returned (which is never rejected; it
  stays pending, \<open>None\<close>, when an awaited promise never settles). The readings of
  \<open>performance.now()\<close> are numbered in the order each path takes them.
\<close>

definition queryDataset ::
  "query_env \<Rightarrow> string option \<Rightarrow> string \<Rightarrow> row_limit \<Rightarrow> rpc_call list \<times> query_result option" where
  "queryDataset env tenantId ds rws =
     (let startTotal = now env 0;
          startMeta = now env 1;
          (calls1, infoP) = getFlightInfo env tenantId ds rws
      in case infoP of
           None \<Rightarrow> (calls1, None)
         | Some (Inl err) \<Rightarrow> (calls1, Some (error_result tenantId ds err (now env 2 - startTotal)))
         | Some (Inr info) \<Rightarrow>
             (let metaLatency = now env 2 - startMeta
              in case first_endpoint info of
                   None \<Rightarrow>
                     (calls1, Some (error_result tenantId ds (JsError ''No endpoints returned'')
                                      (now env 3 - startTotal)))
                 | Some ep \<Rightarrow>
                     (let startTransfer = now env 3;
                          (calls2, resultP) = doGet env (endpoint_ticket ep)
                      in case resultP of
                           None \<Rightarrow> (calls1 @ calls2, None)
                         | Some (Inl err) \<Rightarrow>
                             (calls1 @ calls2,
                              Some (error_result tenantId ds err (now env 4 - startTotal)))
                         | Some (Inr result) \<Rightarrow>
                             (let transferLatency = now env 4 - startTransfer;
                                  totalLatency = now env 5 - startTotal
                              in (calls1 @ calls2,
                                  Some \<lparr>status = Success, tenant_id = tenantId, dataset = ds,
                                        rows = Some (result_rows result),
                                        bytes = Some (result_bytes result),
                                        metadata_latency_ms = Some metaLatency,
                                        transfer_latency_ms = Some transferLatency,
                                        total_latency_ms = totalLatency, error = None\<rparr>)))))"

subsection \<open>\<open>checkHealth\<close>\<close>

text \<open>
  What the probe's promise can observe, in the order it happens: the three stream events
  and the firing of the timer set by \<open>setTimeout\<close>.
\<close>

datatype probe_event = ProbeData | ProbeEnd | ProbeError | Timeout

record probe_state =
  healthy :: bool
  cancelled :: bool
  resolved :: "bool option"

definition probe_init :: probe_state where
  "probe_init = \<lparr>healthy = False, cancelled = False, resolved = None\<rparr>"

definition probe_resolve :: "bool \<Rightarrow> probe_state \<Rightarrow> probe_state" where
  "probe_resolve b s = (if resolved s = None then s\<lparr>resolved := Some b\<rparr> else s)"

fun on_probe_event :: "probe_state \<Rightarrow> probe_event \<Rightarrow> probe_state" where
  "on_probe_event s ProbeData = s\<lparr>healthy := True\<rparr>"
| "on_probe_event s ProbeEnd = probe_resolve True s"
| "on_probe_event s ProbeError = probe_resolve False s"
| "on_probe_event s Timeout = probe_resolve (healthy s) (s\<lparr>cancelled := True\<rparr>)"

text \<open>The promise of \<open>checkHealth\<close> after the given events (\<open>None\<close>: still pending).\<close>

definition checkHealth :: "probe_event list \<Rightarrow> bool option" where
  "checkHealth events = resolved (foldl on_probe_event probe_init events)"

section \<open>Load tester (src/unnamed/part_001, imported as load-tester.js)\<close>

subsection \<open>\<open>calculateMetrics\<close>\<close>

text \<open>
  The quotient of two finite numbers in JavaScript: division by zero gives an infinity or
  \<open>NaN\<close>, never an error (the sign of a zero divisor is not modelled).
\<close>

datatype js_quotient = Finite real | PositiveInfinity | NegativeInfinity | NotANumber

definition js_divide :: "real \<Rightarrow> real \<Rightarrow> js_quotient" where
  "js_divide a b =
     (if b \<noteq> 0 then Finite (a / b)
      else if a = 0 then NotANumber
      else if 0 < a then PositiveInfinity else NegativeInfinity)"

text \<open>Reading \<open>xs[i]\<close>: \<open>undefined\<close> (\<open>None\<close>) outside the array.\<close>

definition js_index :: "'a list \<Rightarrow> nat \<Rightarrow> 'a option" where
  "js_index xs n = (if n < length xs then Some (xs ! n) else None)"

record load_test_metrics =
  total_requests :: nat
  successful :: nat
  failed :: nat
  total_rows :: nat
  total_bytes :: nat
  duration_s :: real
  throughput :: js_quotient
  avg_latency_ms :: real
  p95_latency_ms :: "real option"

text \<open>
  Lines 64-93, over the \<open>results\<close> array of the tester. \<open>r.rows || 0\<close> reads a missing
  count as 0; \<open>sort((a, b) => a - b)\<close> sorts the numbers ascending; \<open>reduce\<close> folds from
  the left. The index \<open>Math.floor(latencies.length * 0.95)\<close> is taken over the reals: the
  double nearest to 0.95 lies below it by less than \<open>5 \<times> 10^-17\<close>, so for every array length
  \<open>n\<close> (below \<open>2^32\<close>) the rounded product has the floor of \<open>19 n / 20\<close>.
\<close>

definition calculateMetrics :: "query_result list \<Rightarrow> real \<Rightarrow> load_test_metrics" where
  "calculateMetrics rs duration =
     (let successful_results = filter (\<lambda>r. status r = Success) rs;
          failed_results = filter (\<lambda>r. status r \<noteq> Success) rs;
          latencies = sort (map total_latency_ms successful_results);
          totalRows = foldl (\<lambda>sum r. sum + (case rows r of None \<Rightarrow> 0 | Some n \<Rightarrow> n)) 0
                        successful_results;
          totalBytes = foldl (\<lambda>sum r. sum + (case bytes r of None \<Rightarrow> 0 | Some n \<Rightarrow> n)) 0
                         successful_results;
          avgLatency = (if length latencies > 0
                        then foldl (+) 0 latencies / real (length latencies) else 0);
          p95Latency = (if length latencies > 0
                        then js_index latencies (nat \<lfloor>real (length latencies) * 0.95\<rfloor>)
                        else Some 0)
      in \<lparr>total_requests = length rs,
          successful = length successful_results,
          failed = length failed_results,
          total_rows = totalRows,
          total_bytes = totalBytes,
          duration_s = duration,
          throughput = js_divide (real (length rs)) duration,
          avg_latency_ms = avgLatency,
          p95_latency_ms = p95Latency\<rparr>)"

subsection \<open>\<open>runLoadTest\<close>\<close>

text \<open>
  JavaScript runs one job at a time to completion, so a run of \<open>runLoadTest\<close> is a sequence
  of atomic steps over the state of the tester. The model keeps what lines 25-59 create: the
  loop variable, the \<open>pending\<close> set, the \<open>allPromises\<close> array, the \<open>results\<close> array, and the
  promises with the reactions registered on them. The promise of request \<open>k\<close> (the value of
  the async function called in iteration \<open>k\<close>) is identified with \<open>k\<close>.

  A reaction is what \<open>then\<close> registers on a request promise: the callback of
  \<open>promise.finally\<close> (line 46), the resolving function of the \<open>Promise.race\<close> made in
  iteration \<open>r\<close> (line 50), or the element function of \<open>Promise.all\<close> (line 55). When a promise
  is fulfilled its reactions become jobs of the microtask queue, in the order in which they
  were registered; a reaction registered on a promise that is already fulfilled becomes a job
  at once. The two other jobs are the continuations of the \<open>await\<close>s of \<open>runLoadTest\<close>.

  The constructor of \<open>FlightClient\<close> is taken not to throw, and \<open>queryDataset\<close> never rejects
  (all of its body after the first clock reading is inside \<open>try\<close>), so a request promise is
  either pending or fulfilled.
\<close>

datatype reaction = Finally | RaceElement nat | AllElement

datatype job = Reaction nat reaction | ResumeAfterRace nat | ResumeAfterAll

text \<open>
  Where \<open>runLoadTest\<close> stands: inside the loop, suspended at the \<open>await\<close> of line 50 in
  iteration \<open>r\<close>, suspended at the \<open>await\<close> of line 55, or returned.
\<close>

datatype phase = Running | AwaitRace nat | AwaitAll | Returned load_test_metrics

text \<open>The constructor argument \<open>concurrency\<close> and the arguments of \<open>runLoadTest\<close>.\<close>

record load_test =
  concurrency :: nat
  totalRequests :: nat
  tenants :: "string list"
  dataset_arg :: string
  rows_arg :: row_limit

text \<open>
  The state of a run: the clock reading of line 26; the loop variable \<open>i\<close>; the set
  \<open>pending\<close> in insertion order; the array \<open>allPromises\<close>; the \<open>tenant\<close> picked in each
  iteration; the \<open>results\<close> array; the request promises fulfilled so far, in the order of
  their completion; the reactions registered on each request promise; the races that have
  been resolved (a race is named by the iteration that made it); the number of promises
  \<open>Promise.all\<close> still waits for; the microtask queue; and where \<open>runLoadTest\<close> stands.
\<close>

record tester =
  startTime :: real
  next_i :: nat
  pending :: "nat list"
  allPromises :: "nat list"
  tenant :: "nat \<Rightarrow> string option"
  results :: "query_result list"
  fulfilled :: "nat list"
  reactions :: "nat \<Rightarrow> reaction list"
  resolved_races :: "nat list"
  all_remaining :: nat
  microtasks :: "job list"
  phase :: phase

text \<open>
  Line 34, \<open>tenants[i % tenants.length]\<close>: with an empty array the index is \<open>NaN\<close> and the
  element \<open>undefined\<close>.
\<close>

definition tenant_at :: "string list \<Rightarrow> nat \<Rightarrow> string option" where
  "tenant_at ts k = (if length ts = 0 then None else Some (ts ! (k mod length ts)))"

text \<open>\<open>then\<close> on the promise of request \<open>p\<close>.\<close>

definition then_reaction :: "nat \<Rightarrow> reaction \<Rightarrow> tester \<Rightarrow> tester" where
  "then_reaction p rc s =
     (if p \<in> set (fulfilled s) then s\<lparr>microtasks := microtasks s @ [Reaction p rc]\<rparr>
      else s\<lparr>reactions := (reactions s)(p := reactions s p @ [rc])\<rparr>)"

text \<open>\<open>Set.add\<close> and \<open>Set.delete\<close> on a set kept in insertion order.\<close>

definition set_add :: "nat \<Rightarrow> nat list \<Rightarrow> nat list" where
  "set_add x xs = (if x \<in> set xs then xs else xs @ [x])"

definition set_delete :: "nat \<Rightarrow> nat list \<Rightarrow> nat list" where
  "set_delete x xs = removeAll x xs"

text \<open>
  Lines 34-46: iteration \<open>i\<close> picks the tenant, starts the request (which issues its first
  call before it suspends), adds its promise to \<open>pending\<close> and \<open>allPromises\<close>, and registers
  the \<open>finally\<close> callback.
\<close>

definition admit :: "load_test \<Rightarrow> tester \<Rightarrow> tester" where
  "admit t s =
     (let k = next_i s
      in then_reaction k Finally
           (s\<lparr>tenant := (tenant s)(k := tenant_at (tenants t) k),
              pending := set_add k (pending s),
              allPromises := allPromises s @ [k]\<rparr>))"

text \<open>
  Line 50: \<open>Promise.race(pending)\<close> registers its resolving function on every promise of the
  set, and \<open>await\<close> suspends \<open>runLoadTest\<close> until the race is resolved.
\<close>

definition race :: "tester \<Rightarrow> tester" where
  "race s =
     (foldl (\<lambda>s' p. then_reaction p (RaceElement (next_i s)) s') s (pending s))
       \<lparr>phase := AwaitRace (next_i s)\<rparr>"

text \<open>
  Line 55: \<open>Promise.all(allPromises)\<close> counts the promises and registers an element function on
  each; for an empty array it is resolved at once, and the continuation of the \<open>await\<close> is
  then queued immediately.
\<close>

definition await_all :: "tester \<Rightarrow> tester" where
  "await_all s =
     (let s1 = foldl (\<lambda>s' p. then_reaction p AllElement s')
                 (s\<lparr>all_remaining := length (allPromises s)\<rparr>) (allPromises s);
          s2 = (if length (allPromises s) = 0
                then s1\<lparr>microtasks := microtasks s1 @ [ResumeAfterAll]\<rparr> else s1)
      in s2\<lparr>phase := AwaitAll\<rparr>)"

text \<open>
  Lines 33-55: the \<open>for\<close> loop from its test \<open>i < totalRequests\<close> up to the next \<open>await\<close>.
\<close>

function loop :: "load_test \<Rightarrow> tester \<Rightarrow> tester" where
  "loop t s =
     (if next_i s < totalRequests t
      then (let s1 = admit t s
            in if length (pending s1) \<ge> concurrency t then race s1
               else loop t (s1\<lparr>next_i := next_i s + 1\<rparr>))
      else await_all s)"
  by pat_completeness auto
termination
  by (relation "measure (\<lambda>(t, s). totalRequests t - next_i s)")
    (auto simp: admit_def then_reaction_def Let_def)

declare loop.simps [simp del]

text \<open>
  One job of the microtask queue. \<open>clock\<close> is what \<open>performance.now()\<close> returns while the job
  runs (read at line 57 only).
\<close>

fun run_job :: "load_test \<Rightarrow> real \<Rightarrow> job \<Rightarrow> tester \<Rightarrow> tester" where
  "run_job t clock (Reaction k Finally) s = s\<lparr>pending := set_delete k (pending s)\<rparr>"
| "run_job t clock (Reaction k (RaceElement r)) s =
     (if r \<in> set (resolved_races s) then s
      else s\<lparr>resolved_races := r # resolved_races s,
             microtasks := microtasks s @ [ResumeAfterRace r]\<rparr>)"
| "run_job t clock (Reaction k AllElement) s =
     (let n = all_remaining s - 1
      in if n = 0 then s\<lparr>all_remaining := n, microtasks := microtasks s @ [ResumeAfterAll]\<rparr>
         else s\<lparr>all_remaining := n\<rparr>)"
| "run_job t clock (ResumeAfterRace r) s = loop t (s\<lparr>next_i := next_i s + 1, phase := Running\<rparr>)"
| "run_job t clock ResumeAfterAll s =
     s\<lparr>phase := Returned (calculateMetrics (results s) ((clock - startTime s) / 1000))\<rparr>"

text \<open>
  What can happen next: the first job of the microtask queue runs, or the query of a
  request that has been started and whose promise is still pending returns
  (\<open>singleRequest\<close>, lines 17-20, is \<open>queryDataset\<close> on a client of its own); the async
  function of line 36 then pushes the result and its promise is fulfilled. \<open>env\<close> is what
  the query of that request met (its server, decoder and clock). A completion may come
  between any two jobs, which covers every order the runtime can produce.
\<close>

datatype event = Microtask real | Completes nat query_env

fun step :: "load_test \<Rightarrow> event \<Rightarrow> tester \<Rightarrow> tester option" where
  "step t (Microtask clock) s =
     (case microtasks s of
        [] \<Rightarrow> None
      | j # q \<Rightarrow> Some (run_job t clock j (s\<lparr>microtasks := q\<rparr>)))"
| "step t (Completes k env) s =
     (if k \<in> set (allPromises s) \<and> k \<notin> set (fulfilled s)
      then (case snd (queryDataset env (tenant s k) (dataset_arg t) (rows_arg t)) of
              None \<Rightarrow> None
            | Some result \<Rightarrow>
                Some (s\<lparr>results := results s @ [result],
                        fulfilled := fulfilled s @ [k],
                        microtasks := microtasks s @ map (Reaction k) (reactions s k)\<rparr>))
      else None)"

fun run :: "load_test \<Rightarrow> tester \<Rightarrow> event list \<Rightarrow> tester option" where
  "run t s [] = Some s"
| "run t s (ev # evs) = (case step t ev s of None \<Rightarrow> None | Some s' \<Rightarrow> run t s' evs)"

text \<open>Lines 26-31: the state in which the loop is entered.\<close>

definition initial :: "real \<Rightarrow> tester" where
  "initial clock =
     \<lparr>startTime = clock, next_i = 0, pending = [], allPromises = [], tenant = (\<lambda>k. None),
      results = [], fulfilled = [], reactions = (\<lambda>k. []), resolved_races = [],
      all_remaining = 0, microtasks = [], phase = Running\<rparr>"

text \<open>
  \<open>runLoadTest\<close> called when the clock reads \<open>clock\<close>, followed by the given events: the state
  reached, or \<open>None\<close> when one of the events cannot happen in the state before it.
\<close>

definition runLoadTest :: "load_test \<Rightarrow> real \<Rightarrow> event list \<Rightarrow> tester option" where
  "runLoadTest t clock evs = run t (loop t (initial clock)) evs"

text \<open>The requests that have been started and have not completed.\<close>

definition outstanding :: "tester \<Rightarrow> nat list" where
  "outstanding s = filter (\<lambda>k. k \<notin> set (fulfilled s)) (allPromises s)"

section \<open>Vocabulary of the properties\<close>

text \<open>The body of a FlightData message, a missing body read as the empty buffer.\<close>

definition body_of :: "flight_data \<Rightarrow> buffer" where
  "body_of flightData = (case data_body flightData of None \<Rightarrow> [] | Some body \<Rightarrow> body)"

text \<open>The chunks of a sequence of messages: the bodies that are not empty, in arrival order.\<close>

definition received :: "flight_data list \<Rightarrow> buffer list" where
  "received fds = filter (\<lambda>b. b \<noteq> []) (map body_of fds)"

text \<open>The row count of a chunk that decodes.\<close>

definition numRows_of :: "(buffer \<Rightarrow> js_error + nat) \<Rightarrow> buffer \<Rightarrow> nat" where
  "numRows_of dec chunk = (case dec chunk of Inl e \<Rightarrow> 0 | Inr n \<Rightarrow> n)"

text \<open>The total latencies of the successful results, in the order of the results.\<close>

definition success_latencies :: "query_result list \<Rightarrow> real list" where
  "success_latencies rs = map total_latency_ms (filter (\<lambda>r. status r = Success) rs)"

subsection \<open>Example values\<close>

text \<open>A server that resolves every descriptor to a FlightInfo without endpoints.\<close>

definition env_no_endpoints :: query_env where
  "env_no_endpoints =
     \<lparr>GetFlightInfo = (\<lambda>d. Some (Inr \<lparr>endpoint = Some []\<rparr>)),
      DoGet = (\<lambda>t. [End]),
      tableFromIPC = (\<lambda>b. Inr 0),
      now = (\<lambda>n. real n),
      buffer_from_undefined = JsError ''The first argument must be of type string'',
      ticket_of_null = JsError ''Cannot read properties of null''\<rparr>"

text \<open>A decoder that rejects one chunk and counts one row per byte of any other.\<close>

definition example_decoder :: "buffer \<Rightarrow> js_error + nat" where
  "example_decoder chunk =
     (if chunk = ''bad'' then Inl (JsError ''Invalid IPC stream'') else Inr (length chunk))"

definition ok_result :: "real \<Rightarrow> query_result" where
  "ok_result ms =
     \<lparr>status = Success, tenant_id = Some ''a'', dataset = ''sales'', rows = Some 1,
      bytes = Some 8, metadata_latency_ms = Some 1, transfer_latency_ms = Some 1,
      total_latency_ms = ms, error = None\<rparr>"

definition failed_result :: "real \<Rightarrow> query_result" where
  "failed_result ms = error_result (Some ''b'') ''sales'' (JsError ''UNAVAILABLE'') ms"

definition ten_results :: "query_result list" where
  "ten_results =
     [ok_result 70, ok_result 10, failed_result 5, ok_result 100, ok_result 30, ok_result 20,
      ok_result 90, ok_result 50, ok_result 40, ok_result 80, ok_result 60]"

text \<open>Load tests: one request at a time, two requests one at a time, and no request.\<close>

definition sequential_test :: load_test where
  "sequential_test =
     \<lparr>concurrency = 1, totalRequests = 1, tenants = [''a'', ''b''], dataset_arg = ''sales'',
      rows_arg = Null\<rparr>"

definition two_test :: load_test where
  "two_test =
     \<lparr>concurrency = 1, totalRequests = 2, tenants = [''a'', ''b''], dataset_arg = ''sales'',
      rows_arg = Null\<rparr>"

definition empty_test :: load_test where
  "empty_test =
     \<lparr>concurrency = 10, totalRequests = 0, tenants = [''a''], dataset_arg = ''sales'',
      rows_arg = Null\<rparr>"

subsection \<open>Invariants of a run\<close>

text \<open>
  The jobs of a queue are in an admissible order for a set of pending promises when every
  race job of a promise comes after that promise has left the set: the \<open>finally\<close> job of
  the promise is ahead of it in the queue, or the promise is no longer pending.
\<close>

fun finally_first :: "nat set \<Rightarrow> job list \<Rightarrow> bool" where
  "finally_first S [] = True"
| "finally_first S (Reaction k Finally # q) = finally_first (S - {k}) q"
| "finally_first S (Reaction k (RaceElement r) # q) = (k \<notin> S \<and> finally_first S q)"
| "finally_first S (Reaction k AllElement # q) = finally_first S q"
| "finally_first S (ResumeAfterRace r # q) = finally_first S q"
| "finally_first S (ResumeAfterAll # q) = finally_first S q"

fun is_resume_race :: "job \<Rightarrow> bool" where
  "is_resume_race (ResumeAfterRace r) = True"
| "is_resume_race j = False"

fun is_all_element :: "job \<Rightarrow> bool" where
  "is_all_element (Reaction k AllElement) = True"
| "is_all_element j = False"

text \<open>How many requests have been started.\<close>

definition admitted :: "tester \<Rightarrow> nat" where
  "admitted s = (case phase s of AwaitRace r \<Rightarrow> Suc (next_i s) | _ \<Rightarrow> next_i s)"

text \<open>The promises, the sets that hold them and the jobs that mention them.\<close>

definition wf_basic :: "load_test \<Rightarrow> tester \<Rightarrow> bool" where
  "wf_basic t s \<longleftrightarrow>
     allPromises s = [0..<admitted s] \<and>
     (case phase s of
        Running \<Rightarrow> next_i s \<le> totalRequests t
      | AwaitRace r \<Rightarrow> r = next_i s \<and> next_i s < totalRequests t
      | _ \<Rightarrow> next_i s = totalRequests t) \<and>
     distinct (pending s) \<and> set (pending s) \<subseteq> set (allPromises s) \<and>
     distinct (fulfilled s) \<and> set (fulfilled s) \<subseteq> set (allPromises s) \<and>
     length (results s) = length (fulfilled s) \<and>
     (\<forall>k \<in> set (allPromises s). k \<notin> set (fulfilled s) \<longrightarrow> k \<in> set (pending s)) \<and>
     (\<forall>k rc. Reaction k rc \<in> set (microtasks s) \<longrightarrow> k \<in> set (fulfilled s)) \<and>
     (\<forall>k. k \<notin> set (allPromises s) \<longrightarrow> reactions s k = [])"

text \<open>The \<open>finally\<close> callback of a promise runs before any other of its reactions.\<close>

definition wf_order :: "tester \<Rightarrow> bool" where
  "wf_order s \<longleftrightarrow>
     finally_first (set (pending s)) (microtasks s) \<and>
     (\<forall>k \<in> set (pending s). k \<in> set (fulfilled s) \<longrightarrow> Reaction k Finally \<in> set (microtasks s)) \<and>
     (\<forall>k \<in> set (allPromises s). k \<notin> set (fulfilled s) \<longrightarrow>
        (\<exists>rest. reactions s k = Finally # rest))"

text \<open>
  Only the race of the current \<open>await\<close> can be unresolved, and the continuation of that
  \<open>await\<close> is queued exactly while the race is resolved and the loop has not resumed.
\<close>

definition wf_races :: "tester \<Rightarrow> bool" where
  "wf_races s \<longleftrightarrow>
     (\<forall>k r. Reaction k (RaceElement r) \<in> set (microtasks s) \<longrightarrow>
        r \<in> set (resolved_races s) \<or> phase s = AwaitRace r) \<and>
     (\<forall>k r. RaceElement r \<in> set (reactions s k) \<longrightarrow>
        r \<in> set (resolved_races s) \<or> phase s = AwaitRace r) \<and>
     (\<forall>r \<in> set (resolved_races s). r < admitted s) \<and>
     filter is_resume_race (microtasks s) =
       (case phase s of
          AwaitRace r \<Rightarrow> if r \<in> set (resolved_races s) then [ResumeAfterRace r] else []
        | _ \<Rightarrow> [])"

text \<open>While the loop waits for a race, every pending request can resolve it.\<close>

definition wf_resume :: "tester \<Rightarrow> bool" where
  "wf_resume s \<longleftrightarrow>
     (\<forall>r. phase s = AwaitRace r \<and> r \<notin> set (resolved_races s) \<longrightarrow>
        (\<forall>k \<in> set (pending s). k \<notin> set (fulfilled s) \<longrightarrow>
           RaceElement r \<in> set (reactions s k)))"

text \<open>The counter of \<open>Promise.all\<close> and the value returned.\<close>

definition wf_all :: "tester \<Rightarrow> bool" where
  "wf_all s \<longleftrightarrow>
     (case phase s of
        AwaitAll \<Rightarrow>
          all_remaining s =
            length (outstanding s) + length (filter is_all_element (microtasks s)) \<and>
          (\<forall>k \<in> set (outstanding s). count_list (reactions s k) AllElement = 1) \<and>
          count_list (microtasks s) ResumeAfterAll = (if all_remaining s = 0 then 1 else 0)
      | Returned m \<Rightarrow>
          outstanding s = [] \<and> filter is_all_element (microtasks s) = [] \<and>
          ResumeAfterAll \<notin> set (microtasks s) \<and>
          (\<exists>d. m = calculateMetrics (results s) d)
      | _ \<Rightarrow>
          (\<forall>k. AllElement \<notin> set (reactions s k)) \<and>
          filter is_all_element (microtasks s) = [] \<and>
          ResumeAfterAll \<notin> set (microtasks s))"

text \<open>The tenant of each request, and of each result in completion order.\<close>

definition wf_tenants :: "load_test \<Rightarrow> tester \<Rightarrow> bool" where
  "wf_tenants t s \<longleftrightarrow>
     (\<forall>k \<in> set (allPromises s). tenant s k = tenant_at (tenants t) k) \<and>
     map tenant_id (results s) = map (tenant_at (tenants t)) (fulfilled s)"

text \<open>What holds in every state of a run, whatever the cap.\<close>

definition invariant :: "load_test \<Rightarrow> tester \<Rightarrow> bool" where
  "invariant t s \<longleftrightarrow>
     wf_basic t s \<and> wf_order s \<and> wf_races s \<and> wf_resume s \<and> wf_all s \<and> wf_tenants t s"

text \<open>
  The size of \<open>pending\<close> against the cap: it never exceeds the cap, and it is below the
  cap whenever the loop runs or is about to run, and after the loop.
\<close>

definition wf_cap :: "load_test \<Rightarrow> tester \<Rightarrow> bool" where
  "wf_cap t s \<longleftrightarrow>
     length (pending s) \<le> concurrency t \<and>
     (case phase s of
        AwaitRace r \<Rightarrow>
          (r \<in> set (resolved_races s) \<longrightarrow> length (pending s) < concurrency t) \<and>
          (\<forall>k. Reaction k (RaceElement r) \<in> set (microtasks s) \<longrightarrow>
             k \<in> set (pending s) \<or> length (pending s) < concurrency t)
      | _ \<Rightarrow> length (pending s) < concurrency t)"

section \<open>Properties of the client\<close>

subsection \<open>The descriptor path\<close>

lemma descriptor_path_eq:
  "descriptor_path t d rws =
     [t, d] @ (case rws of Num n \<Rightarrow> if n \<noteq> 0 then [String_int n] else [] | _ \<Rightarrow> [])"
  by (cases rws) (simp_all add: descriptor_path_def)

text \<open>
  Claim C5, as amended. \<open>getFlightInfo\<close> issues one GetFlightInfo call whose descriptor has
  type PATH and whose path is the tenant id, then the dataset name, then a third segment
  exactly when the row limit is a number other than 0 (a negative one included); the
  segment is the limit printed by \<open>String\<close>. \<open>null\<close>, \<open>NaN\<close> and \<open>0\<close> add no segment, and no
  other segment is ever added.
\<close>

theorem getFlightInfo_path:
  "getFlightInfo env (Some tenantId) datasetName rws =
     ([Call_GetFlightInfo
         \<lparr>descriptor_type = ''PATH'',
          path = [tenantId, datasetName] @
                 (case rws of Num n \<Rightarrow> if n \<noteq> 0 then [String_int n] else [] | _ \<Rightarrow> [])\<rparr>],
      GetFlightInfo env
         \<lparr>descriptor_type = ''PATH'',
          path = [tenantId, datasetName] @
                 (case rws of Num n \<Rightarrow> if n \<noteq> 0 then [String_int n] else [] | _ \<Rightarrow> [])\<rparr>)"
  by (simp add: getFlightInfo_def descriptor_path_eq Let_def)

text \<open>
  Claim C5 as stated fails: a row limit of \<open>-5\<close> is not positive, and the path still gets
  the third segment \<open>-5\<close>.
\<close>

theorem getFlightInfo_negative_rows:
  "fst (getFlightInfo env_no_endpoints (Some ''tenant_001'') ''sales'' (Num (- 5))) =
     [Call_GetFlightInfo
        \<lparr>descriptor_type = ''PATH'', path = [''tenant_001'', ''sales'', ''-5'']\<rparr>] \<and>
   \<not> (0 < (- 5 :: int))"
  by (simp add: getFlightInfo_def descriptor_path_def String_int_def Let_def)

subsection \<open>The streamed fetch\<close>

lemma promise_settled_on_event:
  "promise s = Some v \<Longrightarrow> promise (on_event dec s ev) = Some v"
  by (cases ev) (simp_all add: on_data_def on_end_def on_error_def settle_def split: option.splits)

lemma promise_settled_foldl:
  "promise s = Some v \<Longrightarrow> promise (foldl (on_event dec) s evs) = Some v"
  by (induction evs arbitrary: s) (simp_all add: promise_settled_on_event)

lemma foldl_data:
  "foldl (on_event dec) s (map Data fds) = s\<lparr>chunks := chunks s @ received fds\<rparr>"
proof (induction fds arbitrary: s)
  case Nil
  then show ?case by (simp add: received_def)
next
  case (Cons fd fds)
  show ?case
    by (simp add: Cons.IH on_data_def received_def body_of_def split: option.splits)
qed

lemma decode_chunks_ok:
  "\<forall>c \<in> set cs. \<not> isl (dec c) \<Longrightarrow>
   decode_chunks dec cs a b =
     Inr \<lparr>result_rows = a + sum_list (map (numRows_of dec) cs),
          result_bytes = b + sum_list (map length cs)\<rparr>"
proof (induction cs arbitrary: a b)
  case Nil
  then show ?case by simp
next
  case (Cons c cs)
  then obtain n where n: "dec c = Inr n" by (cases "dec c") auto
  with Cons show ?case by (simp add: numRows_of_def)
qed

lemma decode_chunks_fail:
  "\<exists>c \<in> set cs. isl (dec c) \<Longrightarrow> isl (decode_chunks dec cs a b)"
proof (induction cs arbitrary: a b)
  case Nil
  then show ?case by simp
next
  case (Cons c cs)
  then show ?case by (cases "dec c") auto
qed

lemma sum_length_received:
  "sum_list (map length (received fds)) = sum_list (map (length \<circ> body_of) fds)"
  by (induction fds) (simp_all add: received_def)

lemma doGet_stream_error:
  "doGet_stream dec (map Data fds @ StreamError e # post) = Some (Inl e)"
  by (simp add: doGet_stream_def foldl_data promise_settled_foldl on_error_def settle_def
      do_get_init_def)

lemma doGet_stream_end:
  "doGet_stream dec (map Data fds @ End # post) =
     Some (if received fds = [] then Inr \<lparr>result_rows = 0, result_bytes = 0\<rparr>
           else decode_chunks dec (received fds) 0 0)"
  by (simp add: doGet_stream_def foldl_data promise_settled_foldl on_end_def settle_def
      do_get_init_def)

lemma doGet_stream_pending: "doGet_stream dec (map Data fds) = None"
  by (simp add: doGet_stream_def foldl_data do_get_init_def)

text \<open>Every event sequence is a run of data messages, alone or up to a first end or error.\<close>

lemma events_split:
  "(\<exists>fds. events = map Data fds) \<or>
   (\<exists>fds post. events = map Data fds @ End # post) \<or>
   (\<exists>fds e post. events = map Data fds @ StreamError e # post)"
proof (induction events)
  case Nil
  then show ?case by simp
next
  case (Cons ev events)
  show ?case
  proof (cases ev)
    case (Data fd)
    from Cons show ?thesis
    proof (elim disjE exE)
      fix fds assume "events = map Data fds"
      then have "ev # events = map Data (fd # fds)" using Data by simp
      then show ?thesis by (intro disjI1 exI)
    next
      fix fds post assume "events = map Data fds @ End # post"
      then have "ev # events = map Data (fd # fds) @ End # post" using Data by simp
      then show ?thesis by (intro disjI2 disjI1 exI)
    next
      fix fds e post assume "events = map Data fds @ StreamError e # post"
      then have "ev # events = map Data (fd # fds) @ StreamError e # post" using Data by simp
      then show ?thesis by (intro disjI2 exI)
    qed
  next
    case End
    then have "ev # events = map Data [] @ End # events" by simp
    then show ?thesis by (intro disjI2 disjI1 exI)
  next
    case (StreamError e)
    then have "ev # events = map Data [] @ StreamError e # events" by simp
    then show ?thesis by (intro disjI2 exI)
  qed
qed

text \<open>
  Claim C4. The fetch is atomic. When the stream reports an error before it ends, the
  promise is rejected with that error. When the stream ends and one of the received chunks
  does not decode, the promise is rejected. And whenever the promise is fulfilled with a
  result, the stream delivered data messages and then ended, every received chunk decodes,
  and the result holds the row count of all the chunks and the byte count of all the
  bodies: a fulfilled fetch never reports a part of the stream.
\<close>

theorem doGet_atomic:
  "doGet_stream dec (map Data fds @ StreamError e # post) = Some (Inl e) \<and>
   ((\<exists>c \<in> set (received fds). isl (dec c)) \<longrightarrow>
      (\<exists>err. doGet_stream dec (map Data fds @ End # post) = Some (Inl err))) \<and>
   (doGet_stream dec events = Some (Inr r) \<longrightarrow>
      (\<exists>fds' post'. events = map Data fds' @ End # post' \<and>
         (\<forall>c \<in> set (received fds'). \<not> isl (dec c)) \<and>
         result_rows r = sum_list (map (numRows_of dec) (received fds')) \<and>
         result_bytes r = sum_list (map (length \<circ> body_of) fds')))"
proof (intro conjI impI)
  show "doGet_stream dec (map Data fds @ StreamError e # post) = Some (Inl e)"
    by (rule doGet_stream_error)
next
  assume bad: "\<exists>c \<in> set (received fds). isl (dec c)"
  then have ne: "received fds \<noteq> []" by auto
  from bad have "isl (decode_chunks dec (received fds) 0 0)" by (rule decode_chunks_fail)
  then obtain err where "decode_chunks dec (received fds) 0 0 = Inl err"
    by (cases "decode_chunks dec (received fds) 0 0") auto
  with ne show "\<exists>err. doGet_stream dec (map Data fds @ End # post) = Some (Inl err)"
    by (simp add: doGet_stream_end)
next
  assume ok: "doGet_stream dec events = Some (Inr r)"
  from events_split [of events]
  show "\<exists>fds' post'. events = map Data fds' @ End # post' \<and>
         (\<forall>c \<in> set (received fds'). \<not> isl (dec c)) \<and>
         result_rows r = sum_list (map (numRows_of dec) (received fds')) \<and>
         result_bytes r = sum_list (map (length \<circ> body_of) fds')"
  proof (elim disjE exE)
    fix fds' assume "events = map Data fds'"
    with ok show ?thesis by (simp add: doGet_stream_pending)
  next
    fix fds' e' post' assume "events = map Data fds' @ StreamError e' # post'"
    with ok show ?thesis by (simp add: doGet_stream_error)
  next
    fix fds' post' assume ev: "events = map Data fds' @ End # post'"
    have all_ok: "\<forall>c \<in> set (received fds'). \<not> isl (dec c)"
    proof (rule ccontr)
      assume "\<not> (\<forall>c \<in> set (received fds'). \<not> isl (dec c))"
      then have bad: "\<exists>c \<in> set (received fds'). isl (dec c)" by simp
      then have "received fds' \<noteq> []" by auto
      moreover from bad have "isl (decode_chunks dec (received fds') 0 0)"
        by (rule decode_chunks_fail)
      ultimately show False using ok ev
        by (cases "decode_chunks dec (received fds') 0 0") (simp_all add: doGet_stream_end)
    qed
    have "doGet_stream dec events =
            Some (Inr \<lparr>result_rows = sum_list (map (numRows_of dec) (received fds')),
                       result_bytes = sum_list (map length (received fds'))\<rparr>)"
      using ev decode_chunks_ok [OF all_ok, of 0 0]
      by (cases "received fds' = []") (simp_all add: doGet_stream_end)
    with ok have "r = \<lparr>result_rows = sum_list (map (numRows_of dec) (received fds')),
                       result_bytes = sum_list (map length (received fds'))\<rparr>"
      by simp
    then have "result_rows r = sum_list (map (numRows_of dec) (received fds'))"
      and "result_bytes r = sum_list (map (length \<circ> body_of) fds')"
      by (simp_all add: sum_length_received)
    with ev all_ok show ?thesis by blast
  qed
qed

text \<open>
  The theorem at a stream whose only chunk does not decode, and at a stream of a three-byte
  chunk and an empty message that ends normally.
\<close>

theorem doGet_atomic_witness:
  "received [\<lparr>data_body = Some ''bad''\<rparr>] = [''bad''] \<and> isl (example_decoder ''bad'') \<and>
   (\<exists>err. doGet_stream example_decoder [Data \<lparr>data_body = Some ''bad''\<rparr>, End] = Some (Inl err)) \<and>
   doGet_stream example_decoder
     [Data \<lparr>data_body = Some ''abc''\<rparr>, Data \<lparr>data_body = None\<rparr>, End] =
     Some (Inr \<lparr>result_rows = 3, result_bytes = 3\<rparr>) \<and>
   (\<exists>fds' post'.
      [Data \<lparr>data_body = Some ''abc''\<rparr>, Data \<lparr>data_body = None\<rparr>, End] =
        map Data fds' @ End # post' \<and>
      3 = sum_list (map (numRows_of example_decoder) (received fds')) \<and>
      3 = sum_list (map (length \<circ> body_of) fds'))"
proof -
  have bad: "received [\<lparr>data_body = Some ''bad''\<rparr>] = [''bad'']"
    by (simp add: received_def body_of_def)
  have isl: "isl (example_decoder ''bad'')"
    by (simp add: example_decoder_def)
  have good: "doGet_stream example_decoder
     [Data \<lparr>data_body = Some ''abc''\<rparr>, Data \<lparr>data_body = None\<rparr>, End] =
     Some (Inr \<lparr>result_rows = 3, result_bytes = 3\<rparr>)"
    by (simp add: doGet_stream_def do_get_init_def on_data_def on_end_def settle_def
        example_decoder_def)
  from bad isl good
    doGet_atomic [of example_decoder "[\<lparr>data_body = Some ''bad''\<rparr>]" "JsError ''x''" "[]"
      "[Data \<lparr>data_body = Some ''abc''\<rparr>, Data \<lparr>data_body = None\<rparr>, End]"
      "\<lparr>result_rows = 3, result_bytes = 3\<rparr>"]
  show ?thesis by simp blast
qed

text \<open>
  Claim C8. When the stream ends normally and no chunk has arrived before, the promise is
  fulfilled with zero rows and zero bytes, whatever the decoder and whatever the stream
  emits afterwards. A chunk is a message with a body that is not empty (lines 76-78), so
  this covers the stream that ends at once as well as any stream whose messages before
  the end all have an empty or a missing body.
\<close>

theorem doGet_zero_chunks:
  assumes "received fds = []"
  shows "doGet_stream dec (map Data fds @ End # post) =
           Some (Inr \<lparr>result_rows = 0, result_bytes = 0\<rparr>)"
  using assms by (simp add: doGet_stream_end)

text \<open>
  The theorem at a stream that ends at once, and at a stream of a message with an empty
  body and a message without a body, under a decoder that would reject a chunk.
\<close>

theorem doGet_zero_chunks_witness:
  "received [] = [] \<and>
   doGet_stream example_decoder [End, StreamError (JsError ''late'')] =
     Some (Inr \<lparr>result_rows = 0, result_bytes = 0\<rparr>) \<and>
   received [\<lparr>data_body = Some []\<rparr>, \<lparr>data_body = None\<rparr>] = [] \<and>
   doGet_stream example_decoder
     [Data \<lparr>data_body = Some []\<rparr>, Data \<lparr>data_body = None\<rparr>, End] =
     Some (Inr \<lparr>result_rows = 0, result_bytes = 0\<rparr>)"
proof -
  have none: "received [] = []"
    by (simp add: received_def)
  have empty: "received [\<lparr>data_body = Some []\<rparr>, \<lparr>data_body = None\<rparr>] = []"
    by (simp add: received_def body_of_def)
  from doGet_zero_chunks [OF none, of example_decoder "[StreamError (JsError ''late'')]"]
    doGet_zero_chunks [OF empty, of example_decoder "[]"] none empty
  show ?thesis by simp
qed

subsection \<open>The query\<close>

text \<open>
  Claim C3, as amended. When GetFlightInfo answers with a FlightInfo whose endpoint list is
  empty, \<open>queryDataset\<close> returns a result of status Error whose message is
  \<open>No endpoints returned\<close>; the result has no row or byte count and no metadata or transfer
  latency, its total latency is the time elapsed since the start, and the only call issued
  is the GetFlightInfo call: DoGet is never called.
\<close>

theorem queryDataset_no_endpoints:
  assumes "GetFlightInfo env
             \<lparr>descriptor_type = ''PATH'', path = descriptor_path tenantId ds rws\<rparr> =
           Some (Inr info)"
    and "endpoint info = Some []"
  shows "queryDataset env (Some tenantId) ds rws =
           ([Call_GetFlightInfo
               \<lparr>descriptor_type = ''PATH'', path = descriptor_path tenantId ds rws\<rparr>],
            Some \<lparr>status = Error, tenant_id = Some tenantId, dataset = ds,
                  rows = None, bytes = None,
                  metadata_latency_ms = None, transfer_latency_ms = None,
                  total_latency_ms = now env 3 - now env 0,
                  error = Some ''No endpoints returned''\<rparr>)"
  using assms
  by (simp add: queryDataset_def getFlightInfo_def first_endpoint_def error_result_def Let_def)

theorem queryDataset_no_endpoints_witness:
  "queryDataset env_no_endpoints (Some ''tenant_001'') ''sales'' Null =
     ([Call_GetFlightInfo \<lparr>descriptor_type = ''PATH'', path = [''tenant_001'', ''sales'']\<rparr>],
      Some \<lparr>status = Error, tenant_id = Some ''tenant_001'', dataset = ''sales'',
            rows = None, bytes = None,
            metadata_latency_ms = None, transfer_latency_ms = None,
            total_latency_ms = 3,
            error = Some ''No endpoints returned''\<rparr>)"
  using queryDataset_no_endpoints
    [of env_no_endpoints "''tenant_001''" "''sales''" Null "\<lparr>endpoint = Some []\<rparr>"]
  by (simp add: env_no_endpoints_def descriptor_path_def)

text \<open>
  Claim C3 as stated fails on the message: against a server that returns no endpoints the
  error message of the result is \<open>No endpoints returned\<close>, not \<open>no endpoints\<close>.
\<close>

theorem no_endpoints_message_differs:
  "map_option error (snd (queryDataset env_no_endpoints (Some ''tenant_001'') ''sales'' Null)) =
     Some (Some ''No endpoints returned'') \<and>
   ''No endpoints returned'' \<noteq> ''no endpoints''"
  by (simp add: queryDataset_def getFlightInfo_def first_endpoint_def error_result_def Let_def
      env_no_endpoints_def descriptor_path_def)

subsection \<open>The health probe\<close>

lemma foldl_probe_data:
  "foldl on_probe_event s (replicate n ProbeData) = (if n = 0 then s else s\<lparr>healthy := True\<rparr>)"
  by (induction n arbitrary: s) simp_all

lemma resolved_on_probe_event:
  "resolved s = Some b \<Longrightarrow> resolved (on_probe_event s ev) = Some b"
  by (cases ev) (simp_all add: probe_resolve_def)

lemma resolved_foldl:
  "resolved s = Some b \<Longrightarrow> resolved (foldl on_probe_event s evs) = Some b"
  by (induction evs arbitrary: s) (simp_all add: resolved_on_probe_event)

lemma resolved_after_timeout:
  "\<exists>b. resolved (foldl on_probe_event s (pre @ Timeout # post)) = Some b"
proof -
  let ?s = "foldl on_probe_event s pre"
  have "\<exists>b. resolved (on_probe_event ?s Timeout) = Some b"
    by (cases "resolved ?s") (simp_all add: probe_resolve_def)
  then obtain b where "resolved (on_probe_event ?s Timeout) = Some b" ..
  then have "resolved (foldl on_probe_event (on_probe_event ?s Timeout) post) = Some b"
    by (rule resolved_foldl)
  then show ?thesis by auto
qed

text \<open>
  Claim C6. The promise of the probe can only be resolved with a boolean. Once the timer
  has fired it is resolved, whatever happened before and whatever happens after. After
  \<open>n\<close> data events: a stream end resolves it to true, a stream error to false, and the
  timer to whether a data event was seen (\<open>0 < n\<close>); so one data event or more followed by
  the end of the stream or by the timer gives true. Until one of the three happens the
  promise is pending.
\<close>

theorem checkHealth_resolves:
  "(\<exists>b. checkHealth (pre @ Timeout # post) = Some b) \<and>
   checkHealth (replicate n ProbeData @ ProbeEnd # post) = Some True \<and>
   checkHealth (replicate n ProbeData @ ProbeError # post) = Some False \<and>
   checkHealth (replicate n ProbeData @ Timeout # post) = Some (0 < n) \<and>
   checkHealth (replicate n ProbeData) = None"
proof (intro conjI)
  show "\<exists>b. checkHealth (pre @ Timeout # post) = Some b"
    unfolding checkHealth_def by (rule resolved_after_timeout)
qed (simp_all add: checkHealth_def foldl_probe_data resolved_foldl probe_resolve_def probe_init_def)

section \<open>Properties of the metrics\<close>

lemma foldl_plus_sum_list: "foldl (+) a xs = a + sum_list (xs :: real list)"
  by (induction xs arbitrary: a) simp_all

lemma p95_index_in_range: "0 < n \<Longrightarrow> nat \<lfloor>real n * 0.95\<rfloor> < n"
proof -
  assume "0 < n"
  then have "real n * 0.95 < real n" by simp
  then have "\<lfloor>real n * 0.95\<rfloor> < int n" by linarith
  with \<open>0 < n\<close> show ?thesis by linarith
qed

lemma sort_eq_Nil_iff: "sort xs = [] \<longleftrightarrow> xs = ([] :: real list)"
proof
  assume "sort xs = []"
  then have "length (sort xs) = 0" by simp
  then show "xs = []" by simp
qed simp

lemma p95_js_index:
  "xs \<noteq> [] \<Longrightarrow>
   js_index (sort xs) (nat \<lfloor>real (length xs) * 0.95\<rfloor>) =
     Some (sort xs ! nat \<lfloor>0.95 * real (length xs)\<rfloor>)"
  using p95_index_in_range [of "length xs"]
  by (simp add: js_index_def mult.commute)

lemma sort_ten:
  assumes "mset xs = mset [10, 20, 30, 40, 50, 60, 70, 80, 90, 100 :: real]"
  shows "sort xs = [10, 20, 30, 40, 50, 60, 70, 80, 90, 100]"
proof -
  have "sorted [10, 20, 30, 40, 50, 60, 70, 80, 90, 100 :: real]" by simp
  with assms [symmetric] show ?thesis by (rule properties_for_sort)
qed

text \<open>
  Claim C1. The latencies the metrics use are the total latencies of the successful
  results in ascending order (a sorted rearrangement of them). The average is their sum
  divided by their number, and 0 when there is none. The 95th percentile is the element at
  index \<open>\<lfloor>0.95 \<times> len\<rfloor>\<close> of the sorted sequence, an index that always lies inside it, and
  0 when there is none. With a single successful result the percentile is its latency; with
  ten successful results of latencies 10, 20, ..., 100 in any order, among any number of
  failed ones, the average is 55 and the percentile is 100.
\<close>

theorem calculateMetrics_latencies:
  "sorted (sort (success_latencies rs)) \<and>
   mset (sort (success_latencies rs)) = mset (success_latencies rs) \<and>
   avg_latency_ms (calculateMetrics rs d) =
     (if success_latencies rs = [] then 0
      else sum_list (sort (success_latencies rs)) / real (length (success_latencies rs))) \<and>
   p95_latency_ms (calculateMetrics rs d) =
     (if success_latencies rs = [] then Some 0
      else Some (sort (success_latencies rs) !
                   nat \<lfloor>0.95 * real (length (success_latencies rs))\<rfloor>)) \<and>
   (success_latencies rs = [] \<or>
      nat \<lfloor>0.95 * real (length (success_latencies rs))\<rfloor> < length (success_latencies rs)) \<and>
   (success_latencies rs1 = [x] \<longrightarrow> p95_latency_ms (calculateMetrics rs1 d1) = Some x) \<and>
   (mset (success_latencies rs10) = mset [10, 20, 30, 40, 50, 60, 70, 80, 90, 100] \<longrightarrow>
      avg_latency_ms (calculateMetrics rs10 d10) = 55 \<and>
      p95_latency_ms (calculateMetrics rs10 d10) = Some 100)"
proof (intro conjI impI)
  show "sorted (sort (success_latencies rs))" by simp
  show "mset (sort (success_latencies rs)) = mset (success_latencies rs)" by simp
  show "avg_latency_ms (calculateMetrics rs d) =
     (if success_latencies rs = [] then 0
      else sum_list (sort (success_latencies rs)) / real (length (success_latencies rs)))"
    by (simp add: calculateMetrics_def success_latencies_def Let_def foldl_plus_sum_list)
  show "p95_latency_ms (calculateMetrics rs d) =
     (if success_latencies rs = [] then Some 0
      else Some (sort (success_latencies rs) !
                   nat \<lfloor>0.95 * real (length (success_latencies rs))\<rfloor>))"
  proof (cases "success_latencies rs = []")
    case True
    then show ?thesis
      by (simp add: calculateMetrics_def success_latencies_def Let_def)
  next
    case False
    then have pos: "0 < length (success_latencies rs)" by simp
    have len: "length (sort (success_latencies rs)) = length (success_latencies rs)" by simp
    have "p95_latency_ms (calculateMetrics rs d) =
            (if length (sort (success_latencies rs)) > 0
             then js_index (sort (success_latencies rs))
                    (nat \<lfloor>real (length (sort (success_latencies rs))) * 0.95\<rfloor>)
             else Some 0)"
      by (simp add: calculateMetrics_def success_latencies_def Let_def sort_eq_Nil_iff)
    also have "\<dots> = js_index (sort (success_latencies rs))
                    (nat \<lfloor>real (length (success_latencies rs)) * 0.95\<rfloor>)"
      unfolding len using pos by simp
    also note p95_js_index [OF False]
    finally show ?thesis using False by simp
  qed
  show "success_latencies rs = [] \<or>
      nat \<lfloor>0.95 * real (length (success_latencies rs))\<rfloor> < length (success_latencies rs)"
    using p95_index_in_range [of "length (success_latencies rs)"]
    by (auto simp: mult.commute)
next
  assume "success_latencies rs1 = [x]"
  then show "p95_latency_ms (calculateMetrics rs1 d1) = Some x"
    by (simp add: calculateMetrics_def success_latencies_def Let_def js_index_def)
next
  assume "mset (success_latencies rs10) = mset [10, 20, 30, 40, 50, 60, 70, 80, 90, 100]"
  then have "sort (success_latencies rs10) = [10, 20, 30, 40, 50, 60, 70, 80, 90, 100]"
    by (rule sort_ten)
  then have *: "sort (map total_latency_ms (filter (\<lambda>r. status r = Success) rs10)) =
      [10, 20, 30, 40, 50, 60, 70, 80, 90, 100]"
    by (simp add: success_latencies_def)
  show "avg_latency_ms (calculateMetrics rs10 d10) = 55"
    by (simp add: calculateMetrics_def Let_def * )
  show "p95_latency_ms (calculateMetrics rs10 d10) = Some 100"
    by (simp add: calculateMetrics_def Let_def * js_index_def)
qed

text \<open>
  The theorem at one successful result beside a failed one, and at ten successful results
  in mixed order with a failed one among them.
\<close>

theorem calculateMetrics_latencies_witness:
  "success_latencies [failed_result 3, ok_result 42] = [42] \<and>
   p95_latency_ms (calculateMetrics [failed_result 3, ok_result 42] 1) = Some 42 \<and>
   mset (success_latencies ten_results) = mset [10, 20, 30, 40, 50, 60, 70, 80, 90, 100] \<and>
   avg_latency_ms (calculateMetrics ten_results 2) = 55 \<and>
   p95_latency_ms (calculateMetrics ten_results 2) = Some 100"
proof -
  have one: "success_latencies [failed_result 3, ok_result 42] = [42]"
    by (simp add: success_latencies_def failed_result_def ok_result_def error_result_def)
  have ten: "mset (success_latencies ten_results) = mset [10, 20, 30, 40, 50, 60, 70, 80, 90, 100]"
    by (simp add: success_latencies_def ten_results_def failed_result_def ok_result_def
        error_result_def)
  from one ten
    calculateMetrics_latencies [of "[]" 0 "[failed_result 3, ok_result 42]" 42 1 ten_results 2]
  show ?thesis by simp
qed

section \<open>Properties of a run of the load test\<close>

subsection \<open>Registering a reaction on many promises\<close>

lemma then_reaction_fields [simp]:
  "startTime (then_reaction p rc s) = startTime s"
  "next_i (then_reaction p rc s) = next_i s"
  "pending (then_reaction p rc s) = pending s"
  "allPromises (then_reaction p rc s) = allPromises s"
  "tenant (then_reaction p rc s) = tenant s"
  "results (then_reaction p rc s) = results s"
  "fulfilled (then_reaction p rc s) = fulfilled s"
  "resolved_races (then_reaction p rc s) = resolved_races s"
  "all_remaining (then_reaction p rc s) = all_remaining s"
  "phase (then_reaction p rc s) = phase s"
  by (simp_all add: then_reaction_def)

lemma foldl_then_fields [simp]:
  "startTime (foldl (\<lambda>s' p. then_reaction p rc s') s ps) = startTime s"
  "next_i (foldl (\<lambda>s' p. then_reaction p rc s') s ps) = next_i s"
  "pending (foldl (\<lambda>s' p. then_reaction p rc s') s ps) = pending s"
  "allPromises (foldl (\<lambda>s' p. then_reaction p rc s') s ps) = allPromises s"
  "tenant (foldl (\<lambda>s' p. then_reaction p rc s') s ps) = tenant s"
  "results (foldl (\<lambda>s' p. then_reaction p rc s') s ps) = results s"
  "fulfilled (foldl (\<lambda>s' p. then_reaction p rc s') s ps) = fulfilled s"
  "resolved_races (foldl (\<lambda>s' p. then_reaction p rc s') s ps) = resolved_races s"
  "all_remaining (foldl (\<lambda>s' p. then_reaction p rc s') s ps) = all_remaining s"
  "phase (foldl (\<lambda>s' p. then_reaction p rc s') s ps) = phase s"
  by (induction ps arbitrary: s; simp)+

lemma foldl_then_microtasks [simp]:
  "microtasks (foldl (\<lambda>s' p. then_reaction p rc s') s ps) =
     microtasks s @ map (\<lambda>p. Reaction p rc) (filter (\<lambda>p. p \<in> set (fulfilled s)) ps)"
proof (induction ps arbitrary: s)
  case Nil
  then show ?case by simp
next
  case (Cons p ps)
  show ?case by (simp add: Cons.IH) (simp add: then_reaction_def)
qed

lemma foldl_then_reactions_notin:
  "k \<notin> set ps \<Longrightarrow> reactions (foldl (\<lambda>s' p. then_reaction p rc s') s ps) k = reactions s k"
  by (induction ps arbitrary: s) (auto simp: then_reaction_def)

lemma foldl_then_reactions [simp]:
  "distinct ps \<Longrightarrow>
   reactions (foldl (\<lambda>s' p. then_reaction p rc s') s ps) k =
     (if k \<in> set ps \<and> k \<notin> set (fulfilled s) then reactions s k @ [rc] else reactions s k)"
proof (induction ps arbitrary: s)
  case Nil
  then show ?case by simp
next
  case (Cons p ps)
  then show ?case
    by (auto simp: foldl_then_reactions_notin) (auto simp: then_reaction_def)
qed

lemma foldl_then_more [simp]:
  "tester.more (foldl (\<lambda>s' p. then_reaction p rc s') s ps) = tester.more s"
  by (induction ps arbitrary: s) (simp_all add: then_reaction_def)

lemma foldl_then_eq:
  "distinct ps \<Longrightarrow>
   foldl (\<lambda>s' p. then_reaction p rc s') s ps =
     s\<lparr>reactions := (\<lambda>k. if k \<in> set ps \<and> k \<notin> set (fulfilled s)
                           then reactions s k @ [rc] else reactions s k),
       microtasks := microtasks s @
                     map (\<lambda>p. Reaction p rc) (filter (\<lambda>p. p \<in> set (fulfilled s)) ps)\<rparr>"
  by (rule tester.equality) (simp_all add: fun_eq_iff)

lemma finally_first_append:
  "finally_first S (q @ q') \<longleftrightarrow>
     finally_first S q \<and> finally_first (S - {k. Reaction k Finally \<in> set q}) q'"
proof (induction S q rule: finally_first.induct)
  case (2 S k q)
  have "S - {k} - {k'. Reaction k' Finally \<in> set q} =
        S - {k'. Reaction k' Finally \<in> set (Reaction k Finally # q)}"
    by auto
  with 2 show ?case by simp
qed simp_all

lemma finally_first_insert:
  "\<forall>rc. Reaction k rc \<notin> set q \<Longrightarrow> finally_first (insert k S) q = finally_first S q"
proof (induction S q rule: finally_first.induct)
  case (2 S k' q)
  then have "k \<noteq> k'" by auto
  then have "insert k S - {k'} = insert k (S - {k'})" by auto
  with 2 show ?case by simp
qed auto

lemma finally_first_reactions: "k \<notin> S \<Longrightarrow> finally_first S (map (Reaction k) rs)"
proof (induction rs arbitrary: S)
  case Nil
  then show ?case by simp
next
  case (Cons rc rs)
  then show ?case by (cases rc) simp_all
qed

lemma finally_first_race_jobs:
  "\<forall>p \<in> set ps. p \<notin> S \<Longrightarrow> finally_first S (map (\<lambda>p. Reaction p (RaceElement r)) ps)"
  by (induction ps) simp_all

lemma finally_first_all_jobs: "finally_first S (map (\<lambda>p. Reaction p AllElement) ps)"
  by (induction ps) simp_all

lemma filter_resume_reactions [simp]: "filter (is_resume_race \<circ> Reaction k) rs = []"
  by (induction rs) simp_all

lemma filter_all_reactions:
  "length (filter (is_all_element \<circ> Reaction k) rs) = count_list rs AllElement"
proof (induction rs)
  case Nil
  then show ?case by simp
next
  case (Cons rc rs)
  then show ?case by (cases rc) simp_all
qed

lemma filter_all_reactions_Nil:
  "AllElement \<notin> set rs \<Longrightarrow> filter (is_all_element \<circ> Reaction k) rs = []"
proof (induction rs)
  case Nil
  then show ?case by simp
next
  case (Cons rc rs)
  then show ?case by (cases rc) simp_all
qed

lemma admitted_simps [simp]:
  "admitted (s\<lparr>results := a\<rparr>) = admitted s"
  "admitted (s\<lparr>fulfilled := b\<rparr>) = admitted s"
  "admitted (s\<lparr>microtasks := c\<rparr>) = admitted s"
  "admitted (s\<lparr>pending := d\<rparr>) = admitted s"
  "admitted (s\<lparr>resolved_races := e\<rparr>) = admitted s"
  "admitted (s\<lparr>all_remaining := f\<rparr>) = admitted s"
  "admitted (s\<lparr>reactions := g\<rparr>) = admitted s"
  "admitted (s\<lparr>tenant := h\<rparr>) = admitted s"
  "admitted (s\<lparr>allPromises := i\<rparr>) = admitted s"
  by (simp_all add: admitted_def split: phase.splits)

lemma count_list_0_iff: "count_list xs x = 0 \<longleftrightarrow> x \<notin> set xs"
  by (induction xs) auto

lemma queryDataset_tenant_id:
  "snd (queryDataset env tid ds rws) = Some result \<Longrightarrow> tenant_id result = tid"
  by (auto simp: queryDataset_def Let_def error_result_def
      split: prod.splits option.splits sum.splits if_splits)

subsection \<open>A request completes\<close>

lemma wf_basic_completes:
  assumes "wf_basic t s" "k \<in> set (allPromises s)" "k \<notin> set (fulfilled s)"
  shows "wf_basic t (s\<lparr>results := results s @ [result], fulfilled := fulfilled s @ [k],
                      microtasks := microtasks s @ map (Reaction k) (reactions s k)\<rparr>)"
  using assms by (auto simp: wf_basic_def split: phase.splits)

lemma wf_order_completes:
  assumes "wf_basic t s" "wf_order s" "k \<in> set (allPromises s)" "k \<notin> set (fulfilled s)"
  shows "wf_order (s\<lparr>results := results s @ [result], fulfilled := fulfilled s @ [k],
                     microtasks := microtasks s @ map (Reaction k) (reactions s k)\<rparr>)"
proof -
  from assms obtain rest where rest: "reactions s k = Finally # rest"
    by (auto simp: wf_order_def)
  have "finally_first (set (pending s))
          (microtasks s @ map (Reaction k) (reactions s k))"
    using assms(2) by (simp add: wf_order_def finally_first_append rest finally_first_reactions)
  with assms rest show ?thesis by (auto simp: wf_order_def)
qed

lemma wf_races_completes:
  assumes "wf_races s"
  shows "wf_races (s\<lparr>results := results s @ [result], fulfilled := fulfilled s @ [k],
                     microtasks := microtasks s @ map (Reaction k) (reactions s k)\<rparr>)"
  using assms by (auto simp: wf_races_def split: phase.splits)

lemma wf_cap_completes:
  assumes "wf_basic t s" "wf_cap t s" "k \<in> set (allPromises s)" "k \<notin> set (fulfilled s)"
  shows "wf_cap t (s\<lparr>results := results s @ [result], fulfilled := fulfilled s @ [k],
                     microtasks := microtasks s @ map (Reaction k) (reactions s k)\<rparr>)"
  using assms by (auto simp: wf_cap_def wf_basic_def split: phase.splits)

lemma wf_resume_completes:
  assumes "wf_resume s"
  shows "wf_resume (s\<lparr>results := results s @ [result], fulfilled := fulfilled s @ [k],
                     microtasks := microtasks s @ map (Reaction k) (reactions s k)\<rparr>)"
  using assms by (auto simp: wf_resume_def)

lemma outstanding_completes:
  assumes "distinct (allPromises s)" "k \<in> set (allPromises s)" "k \<notin> set (fulfilled s)"
  shows "Suc (length (outstanding (s\<lparr>results := rs', fulfilled := fulfilled s @ [k],
                                      microtasks := q'\<rparr>))) = length (outstanding s)"
proof -
  have "\<And>xs. distinct xs \<Longrightarrow> k \<in> set xs \<Longrightarrow>
     Suc (length (filter (\<lambda>x. x \<noteq> k \<and> x \<notin> set (fulfilled s)) xs)) =
     length (filter (\<lambda>x. x \<notin> set (fulfilled s)) xs)"
  proof -
    fix xs :: "nat list"
    show "distinct xs \<Longrightarrow> k \<in> set xs \<Longrightarrow>
     Suc (length (filter (\<lambda>x. x \<noteq> k \<and> x \<notin> set (fulfilled s)) xs)) =
     length (filter (\<lambda>x. x \<notin> set (fulfilled s)) xs)"
    proof (induction xs)
      case Nil
      then show ?case by simp
    next
      case (Cons x xs)
      show ?case
      proof (cases "x = k")
        case True
        with Cons.prems have "k \<notin> set xs" by simp
        then have "filter (\<lambda>x. x \<noteq> k \<and> x \<notin> set (fulfilled s)) xs =
                   filter (\<lambda>x. x \<notin> set (fulfilled s)) xs"
          by (intro filter_cong) auto
        with True assms(3) show ?thesis by simp
      next
        case False
        with Cons show ?thesis by simp
      qed
    qed
  qed
  from this [OF assms(1,2)] show ?thesis
    by (simp add: outstanding_def conj_commute)
qed

lemma wf_all_completes:
  assumes "wf_basic t s" "wf_all s" "k \<in> set (allPromises s)" "k \<notin> set (fulfilled s)"
  shows "wf_all (s\<lparr>results := results s @ [result], fulfilled := fulfilled s @ [k],
                   microtasks := microtasks s @ map (Reaction k) (reactions s k)\<rparr>)"
proof -
  let ?s' = "s\<lparr>results := results s @ [result], fulfilled := fulfilled s @ [k],
               microtasks := microtasks s @ map (Reaction k) (reactions s k)\<rparr>"
  from assms have dist: "distinct (allPromises s)" by (simp add: wf_basic_def)
  have out: "Suc (length (outstanding ?s')) = length (outstanding s)"
    using dist assms(3,4) by (rule outstanding_completes)
  have kout: "k \<in> set (outstanding s)" using assms(3,4) by (simp add: outstanding_def)
  have sub: "set (outstanding ?s') \<subseteq> set (outstanding s)" by (auto simp: outstanding_def)
  have noresume: "count_list (map (Reaction k) (reactions s k)) ResumeAfterAll = 0"
    by (simp add: count_list_0_iff image_iff)
  show ?thesis
  proof (cases "phase s")
    case Running
    with assms(2) have "AllElement \<notin> set (reactions s k)"
      by (simp add: wf_all_def)
    with Running assms(2) show ?thesis
      by (auto simp: wf_all_def filter_all_reactions_Nil filter_map)
  next
    case (AwaitRace r)
    with assms(2) have "AllElement \<notin> set (reactions s k)"
      by (simp add: wf_all_def)
    with AwaitRace assms(2) show ?thesis
      by (auto simp: wf_all_def filter_all_reactions_Nil filter_map)
  next
    case AwaitAll
    with assms(2) kout have one: "count_list (reactions s k) AllElement = 1"
      by (simp add: wf_all_def)
    from AwaitAll assms(2) out one sub noresume show ?thesis
      by (auto simp: wf_all_def filter_all_reactions)
  next
    case (Returned m)
    with assms(2) kout show ?thesis by (simp add: wf_all_def)
  qed
qed

lemma wf_tenants_completes:
  assumes "wf_tenants t s" "k \<in> set (allPromises s)"
    "snd (queryDataset env (tenant s k) ds rws) = Some result"
  shows "wf_tenants t (s\<lparr>results := results s @ [result], fulfilled := fulfilled s @ [k],
                   microtasks := microtasks s @ map (Reaction k) (reactions s k)\<rparr>)"
  using assms queryDataset_tenant_id [OF assms(3)] by (auto simp: wf_tenants_def)

lemma completes_cases:
  assumes "step t (Completes k env) s = Some s'"
  obtains result where "k \<in> set (allPromises s)" "k \<notin> set (fulfilled s)"
    "snd (queryDataset env (tenant s k) (dataset_arg t) (rows_arg t)) = Some result"
    "s' = s\<lparr>results := results s @ [result], fulfilled := fulfilled s @ [k],
              microtasks := microtasks s @ map (Reaction k) (reactions s k)\<rparr>"
  using assms by (auto split: if_splits option.splits)

lemma invariant_completes:
  assumes "invariant t s" "step t (Completes k env) s = Some s'"
  shows "invariant t s'"
proof -
  from assms(2) obtain result where
    k: "k \<in> set (allPromises s)" "k \<notin> set (fulfilled s)" and
    res: "snd (queryDataset env (tenant s k) (dataset_arg t) (rows_arg t)) = Some result" and
    s': "s' = s\<lparr>results := results s @ [result], fulfilled := fulfilled s @ [k],
                microtasks := microtasks s @ map (Reaction k) (reactions s k)\<rparr>"
    by (rule completes_cases)
  from assms(1) k res show ?thesis
    unfolding s' invariant_def
    by (intro conjI wf_basic_completes wf_order_completes wf_races_completes
        wf_resume_completes wf_all_completes wf_tenants_completes) auto
qed

lemma cap_completes:
  assumes "invariant t s" "wf_cap t s" "step t (Completes k env) s = Some s'"
  shows "wf_cap t s'"
proof -
  from assms(3) obtain result where
    k: "k \<in> set (allPromises s)" "k \<notin> set (fulfilled s)" and
    s': "s' = s\<lparr>results := results s @ [result], fulfilled := fulfilled s @ [k],
                microtasks := microtasks s @ map (Reaction k) (reactions s k)\<rparr>"
    by (rule completes_cases)
  from assms(1) have "wf_basic t s" by (simp add: invariant_def)
  from this assms(2) k show ?thesis
    unfolding s' by (rule wf_cap_completes)
qed

subsection \<open>The \<open>finally\<close> callback runs\<close>

lemma outstanding_simps [simp]:
  "outstanding (s\<lparr>microtasks := c\<rparr>) = outstanding s"
  "outstanding (s\<lparr>pending := d\<rparr>) = outstanding s"
  "outstanding (s\<lparr>resolved_races := e\<rparr>) = outstanding s"
  "outstanding (s\<lparr>all_remaining := f\<rparr>) = outstanding s"
  "outstanding (s\<lparr>reactions := g\<rparr>) = outstanding s"
  "outstanding (s\<lparr>tenant := h\<rparr>) = outstanding s"
  "outstanding (s\<lparr>phase := ph\<rparr>) = outstanding s"
  "outstanding (s\<lparr>next_i := n\<rparr>) = outstanding s"
  "outstanding (s\<lparr>results := a\<rparr>) = outstanding s"
  by (simp_all add: outstanding_def)

lemma length_removeAll_less:
  "k \<in> set xs \<Longrightarrow> length (removeAll k xs) < length xs"
  by (induction xs) (auto simp: less_Suc_eq_le)

lemma invariant_finally:
  assumes "invariant t s" "microtasks s = Reaction k Finally # q"
  shows "invariant t (run_job t c (Reaction k Finally) (s\<lparr>microtasks := q\<rparr>))"
proof -
  let ?s' = "s\<lparr>microtasks := q, pending := removeAll k (pending s)\<rparr>"
  from assms(1) have wfb: "wf_basic t s" and wfo: "wf_order s" and wfr: "wf_races s"
    and wfs: "wf_resume s" and wfa: "wf_all s" and wft: "wf_tenants t s"
    by (simp_all add: invariant_def)
  have kf: "k \<in> set (fulfilled s)" using wfb assms(2) by (auto simp: wf_basic_def)
  have 1: "wf_basic t ?s'"
    using wfb assms(2) kf by (auto simp: wf_basic_def distinct_removeAll split: phase.splits)
  have 2: "wf_order ?s'"
    using wfo assms(2) by (auto simp: wf_order_def)
  have 3: "wf_races ?s'"
    using wfr assms(2) by (auto simp: wf_races_def split: phase.splits)
  have 5: "wf_resume ?s'"
    using wfs by (auto simp: wf_resume_def)
  have 6: "wf_all ?s'"
    using wfa assms(2) by (auto simp: wf_all_def split: phase.splits if_splits)
  have 7: "wf_tenants t ?s'"
    using wft by (auto simp: wf_tenants_def)
  from 1 2 3 5 6 7 show ?thesis
    by (simp add: invariant_def set_delete_def)
qed

lemma cap_finally:
  assumes "wf_cap t s" "microtasks s = Reaction k Finally # q"
  shows "wf_cap t (run_job t c (Reaction k Finally) (s\<lparr>microtasks := q\<rparr>))"
proof -
  let ?s' = "s\<lparr>microtasks := q, pending := removeAll k (pending s)\<rparr>"
  have "wf_cap t ?s'"
  proof (cases "k \<in> set (pending s)")
    case True
    then have "length (removeAll k (pending s)) < length (pending s)"
      by (rule length_removeAll_less)
    with assms show ?thesis by (auto simp: wf_cap_def split: phase.splits)
  next
    case False
    with assms show ?thesis by (auto simp: wf_cap_def split: phase.splits)
  qed
  then show ?thesis by (simp add: set_delete_def)
qed

subsection \<open>A race element runs\<close>

lemma invariant_race_element:
  assumes "invariant t s" "microtasks s = Reaction k (RaceElement r) # q"
  shows "invariant t (run_job t c (Reaction k (RaceElement r)) (s\<lparr>microtasks := q\<rparr>))"
proof -
  from assms(1) have wfb: "wf_basic t s" and wfo: "wf_order s" and wfr: "wf_races s"
    and wfs: "wf_resume s" and wfa: "wf_all s" and wft: "wf_tenants t s"
    by (simp_all add: invariant_def)
  let ?s0 = "s\<lparr>microtasks := q\<rparr>"
  have 10: "wf_basic t ?s0"
    using wfb assms(2) by (auto simp: wf_basic_def split: phase.splits)
  have 20: "wf_order ?s0"
    using wfo assms(2) by (auto simp: wf_order_def)
  have 30: "wf_races ?s0"
    using wfr assms(2) by (auto simp: wf_races_def split: phase.splits)
  have 50: "wf_resume ?s0"
    using wfs by (auto simp: wf_resume_def)
  have 60: "wf_all ?s0"
    using wfa assms(2) by (auto simp: wf_all_def split: phase.splits if_splits)
  have 70: "wf_tenants t ?s0"
    using wft by (auto simp: wf_tenants_def)
  show ?thesis
  proof (cases "r \<in> set (resolved_races s)")
    case True
    with 10 20 30 50 60 70 show ?thesis by (simp add: invariant_def)
  next
    case False
    let ?s' = "s\<lparr>resolved_races := r # resolved_races s,
                 microtasks := q @ [ResumeAfterRace r]\<rparr>"
    from False wfr assms(2) have ph: "phase s = AwaitRace r"
      by (auto simp: wf_races_def)
    from wfr assms(2) ph False have nores: "filter is_resume_race q = []"
      by (simp add: wf_races_def)
    have 1: "wf_basic t ?s'"
      using wfb assms(2) by (auto simp: wf_basic_def split: phase.splits)
    have 2: "wf_order ?s'"
      using wfo assms(2) by (auto simp: wf_order_def finally_first_append)
    have 3: "wf_races ?s'"
      using wfr assms(2) ph nores wfb
      by (auto simp: wf_races_def wf_basic_def admitted_def)
    have 5: "wf_resume ?s'"
      using wfs ph by (auto simp: wf_resume_def)
    have 6: "wf_all ?s'"
      using wfa assms(2) ph by (auto simp: wf_all_def)
    have 7: "wf_tenants t ?s'"
      using wft by (auto simp: wf_tenants_def)
    from False 1 2 3 5 6 7 show ?thesis by (simp add: invariant_def)
  qed
qed

text \<open>
  The step on which the cap rests: when the race of the current \<open>await\<close> is resolved, the
  promise that resolves it has already been deleted from \<open>pending\<close>.
\<close>

lemma cap_race_element:
  assumes "invariant t s" "wf_cap t s" "microtasks s = Reaction k (RaceElement r) # q"
  shows "wf_cap t (run_job t c (Reaction k (RaceElement r)) (s\<lparr>microtasks := q\<rparr>))"
proof (cases "r \<in> set (resolved_races s)")
  case True
  with assms(2,3) show ?thesis by (auto simp: wf_cap_def split: phase.splits)
next
  case False
  from assms(1) have wfo: "wf_order s" and wfr: "wf_races s"
    by (simp_all add: invariant_def)
  from False wfr assms(3) have ph: "phase s = AwaitRace r"
    by (auto simp: wf_races_def)
  from wfo assms(3) have "k \<notin> set (pending s)"
    by (simp add: wf_order_def)
  with assms(2,3) ph have "length (pending s) < concurrency t"
    by (auto simp: wf_cap_def)
  with assms(2) ph False show ?thesis by (auto simp: wf_cap_def)
qed

subsection \<open>An element function of \<open>Promise.all\<close> runs\<close>

lemma invariant_all_element:
  assumes "invariant t s" "microtasks s = Reaction k AllElement # q"
  shows "invariant t (run_job t c (Reaction k AllElement) (s\<lparr>microtasks := q\<rparr>))"
proof -
  from assms(1) have wfb: "wf_basic t s" and wfo: "wf_order s" and wfr: "wf_races s"
    and wfs: "wf_resume s" and wfa: "wf_all s" and wft: "wf_tenants t s"
    by (simp_all add: invariant_def)
  from wfa assms(2) have ph: "phase s = AwaitAll"
    by (cases "phase s") (simp_all add: wf_all_def)
  from wfa assms(2) ph have rem:
    "all_remaining s = Suc (length (outstanding s) + length (filter is_all_element q))"
    and nores: "count_list q ResumeAfterAll = 0"
    by (simp_all add: wf_all_def)
  define n q' where "n = all_remaining s - 1"
    and "q' = (if n = 0 then q @ [ResumeAfterAll] else q)"
  let ?s' = "s\<lparr>microtasks := q', all_remaining := n\<rparr>"
  have 1: "wf_basic t ?s'"
    using wfb assms(2) ph by (auto simp: wf_basic_def q'_def)
  have 2: "wf_order ?s'"
    using wfo assms(2) by (auto simp: wf_order_def q'_def finally_first_append)
  have 3: "wf_races ?s'"
    using wfr assms(2) ph by (auto simp: wf_races_def q'_def)
  have 5: "wf_resume ?s'"
    using wfs ph by (auto simp: wf_resume_def)
  have 6: "wf_all ?s'"
    using wfa ph rem nores by (auto simp: wf_all_def q'_def n_def)
  have 7: "wf_tenants t ?s'"
    using wft by (auto simp: wf_tenants_def)
  have "run_job t c (Reaction k AllElement) (s\<lparr>microtasks := q\<rparr>) = ?s'"
    by (simp add: Let_def q'_def n_def)
  with 1 2 3 5 6 7 show ?thesis by (simp add: invariant_def)
qed

lemma cap_all_element:
  assumes "wf_cap t s" "microtasks s = Reaction k AllElement # q"
  shows "wf_cap t (run_job t c (Reaction k AllElement) (s\<lparr>microtasks := q\<rparr>))"
  using assms by (auto simp: wf_cap_def Let_def split: phase.splits)

subsection \<open>\<open>runLoadTest\<close> returns\<close>

lemma invariant_resume_all:
  assumes "invariant t s" "microtasks s = ResumeAfterAll # q"
  shows "invariant t (run_job t c ResumeAfterAll (s\<lparr>microtasks := q\<rparr>))"
proof -
  from assms(1) have wfb: "wf_basic t s" and wfo: "wf_order s" and wfr: "wf_races s"
    and wfs: "wf_resume s" and wfa: "wf_all s" and wft: "wf_tenants t s"
    by (simp_all add: invariant_def)
  from wfa assms(2) have ph: "phase s = AwaitAll"
    by (cases "phase s") (simp_all add: wf_all_def)
  from wfa assms(2) ph have rem: "all_remaining s = 0"
    by (auto simp: wf_all_def split: if_splits)
  with wfa assms(2) ph have fin: "outstanding s = []" "filter is_all_element q = []"
    "ResumeAfterAll \<notin> set q"
    by (auto simp: wf_all_def count_list_0_iff)
  let ?m = "calculateMetrics (results s) ((c - startTime s) / 1000)"
  let ?s' = "s\<lparr>microtasks := q, phase := Returned ?m\<rparr>"
  have 1: "wf_basic t ?s'"
    using wfb assms(2) ph by (auto simp: wf_basic_def admitted_def)
  have 2: "wf_order ?s'"
    using wfo assms(2) by (auto simp: wf_order_def)
  have 3: "wf_races ?s'"
    using wfr assms(2) ph by (auto simp: wf_races_def admitted_def)
  have 5: "wf_resume ?s'"
    using wfs ph by (auto simp: wf_resume_def)
  have 6: "wf_all ?s'"
    using fin by (auto simp: wf_all_def)
  have 7: "wf_tenants t ?s'"
    using wft by (auto simp: wf_tenants_def)
  from 1 2 3 5 6 7 show ?thesis by (simp add: invariant_def)
qed

lemma cap_resume_all:
  assumes "invariant t s" "wf_cap t s" "microtasks s = ResumeAfterAll # q"
  shows "wf_cap t (run_job t c ResumeAfterAll (s\<lparr>microtasks := q\<rparr>))"
proof -
  from assms(1) have wfa: "wf_all s" by (simp add: invariant_def)
  from wfa assms(3) have ph: "phase s = AwaitAll"
    by (cases "phase s") (simp_all add: wf_all_def)
  with assms(2) show ?thesis by (auto simp: wf_cap_def)
qed

subsection \<open>The loop\<close>

lemma admit_eq:
  assumes "wf_basic t s" "phase s = Running"
  shows "admit t s =
           s\<lparr>tenant := (tenant s)(next_i s := tenant_at (tenants t) (next_i s)),
             pending := pending s @ [next_i s],
             allPromises := allPromises s @ [next_i s],
             reactions := (reactions s)(next_i s := [Finally])\<rparr>"
proof -
  from assms have A: "allPromises s = [0..<next_i s]"
    by (simp add: wf_basic_def admitted_def)
  with assms have "next_i s \<notin> set (pending s)" "next_i s \<notin> set (fulfilled s)"
    "reactions s (next_i s) = []"
    by (auto simp: wf_basic_def)
  then show ?thesis
    by (simp add: admit_def Let_def then_reaction_def set_add_def)
qed

lemma fresh_request:
  assumes "wf_basic t s" "phase s = Running"
  shows "next_i s \<notin> set (pending s)" "next_i s \<notin> set (fulfilled s)"
    "\<forall>rc. Reaction (next_i s) rc \<notin> set (microtasks s)"
proof -
  from assms have A: "allPromises s = [0..<next_i s]"
    by (simp add: wf_basic_def admitted_def)
  with assms(1) show "next_i s \<notin> set (pending s)" and f: "next_i s \<notin> set (fulfilled s)"
    by (auto simp: wf_basic_def)
  from assms(1) f show "\<forall>rc. Reaction (next_i s) rc \<notin> set (microtasks s)"
    unfolding wf_basic_def by blast
qed

lemma race_admit_eq:
  assumes "wf_basic t s" "phase s = Running"
  shows "race (admit t s) =
           s\<lparr>tenant := (tenant s)(next_i s := tenant_at (tenants t) (next_i s)),
             pending := pending s @ [next_i s],
             allPromises := allPromises s @ [next_i s],
             reactions := (\<lambda>p. if p = next_i s then [Finally, RaceElement (next_i s)]
                                else if p \<in> set (pending s) \<and> p \<notin> set (fulfilled s)
                                     then reactions s p @ [RaceElement (next_i s)]
                                     else reactions s p),
             microtasks := microtasks s @
                           map (\<lambda>p. Reaction p (RaceElement (next_i s)))
                             (filter (\<lambda>p. p \<in> set (fulfilled s)) (pending s)),
             phase := AwaitRace (next_i s)\<rparr>"
    (is "_ = ?s'")
proof -
  let ?k = "next_i s"
  let ?a = "s\<lparr>tenant := (tenant s)(?k := tenant_at (tenants t) ?k),
              pending := pending s @ [?k],
              allPromises := allPromises s @ [?k],
              reactions := (reactions s)(?k := [Finally])\<rparr>"
  note fresh = fresh_request [OF assms]
  from assms(1) have dist: "distinct (pending s)"
    by (simp add: wf_basic_def)
  have da: "distinct (pending ?a)" using dist fresh by simp
  have "race ?a = ?s'"
    unfolding race_def foldl_then_eq [OF da]
    using fresh by (intro tester.equality) (simp_all add: fun_eq_iff)
  then show ?thesis
    by (simp only: admit_eq [OF assms])
qed

lemma invariant_admit_next:
  assumes "invariant t s" "phase s = Running" "next_i s < totalRequests t"
  shows "invariant t ((admit t s)\<lparr>next_i := next_i s + 1\<rparr>) \<and>
         phase ((admit t s)\<lparr>next_i := next_i s + 1\<rparr>) = Running"
proof -
  from assms(1) have wfb: "wf_basic t s" and wfo: "wf_order s" and wfr: "wf_races s"
    and wfs: "wf_resume s" and wfa: "wf_all s" and wft: "wf_tenants t s"
    by (simp_all add: invariant_def)
  let ?k = "next_i s"
  let ?s' = "s\<lparr>tenant := (tenant s)(?k := tenant_at (tenants t) ?k),
               pending := pending s @ [?k],
               allPromises := allPromises s @ [?k],
               reactions := (reactions s)(?k := [Finally]),
               next_i := Suc ?k\<rparr>"
  have eq: "(admit t s)\<lparr>next_i := next_i s + 1\<rparr> = ?s'"
    by (simp add: admit_eq [OF wfb assms(2)])
  from wfb assms(2) have A: "allPromises s = [0..<?k]"
    by (simp add: wf_basic_def admitted_def)
  note fresh = fresh_request [OF wfb assms(2)]
  have 1: "wf_basic t ?s'"
    using wfb assms(2,3) A fresh by (auto simp: wf_basic_def admitted_def)
  have 2: "wf_order ?s'"
    using wfo A fresh by (auto simp: wf_order_def finally_first_insert)
  have 3: "wf_races ?s'"
    using wfr assms(2) by (auto simp: wf_races_def admitted_def less_Suc_eq)
  have 5: "wf_resume ?s'"
    using wfs assms(2) by (auto simp: wf_resume_def)
  have 6: "wf_all ?s'"
    using wfa assms(2) by (auto simp: wf_all_def outstanding_def)
  have 7: "wf_tenants t ?s'"
    using wft A by (auto simp: wf_tenants_def)
  from 1 2 3 5 6 7 assms(2) show ?thesis
    unfolding eq by (simp add: invariant_def)
qed

lemma cap_admit_next:
  assumes "invariant t s" "phase s = Running"
    "\<not> concurrency t \<le> length (pending (admit t s))"
  shows "wf_cap t ((admit t s)\<lparr>next_i := next_i s + 1\<rparr>)"
proof -
  from assms(1) have wfb: "wf_basic t s" by (simp add: invariant_def)
  from assms(2,3) show ?thesis
    by (simp add: admit_eq [OF wfb assms(2)] wf_cap_def)
qed

lemma invariant_race:
  assumes "invariant t s" "phase s = Running" "next_i s < totalRequests t"
  shows "invariant t (race (admit t s)) \<and> phase (race (admit t s)) = AwaitRace (next_i s)"
proof -
  from assms(1) have wfb: "wf_basic t s" and wfo: "wf_order s" and wfr: "wf_races s"
    and wfs: "wf_resume s" and wfa: "wf_all s" and wft: "wf_tenants t s"
    by (simp_all add: invariant_def)
  let ?k = "next_i s"
  let ?late = "filter (\<lambda>p. p \<in> set (fulfilled s)) (pending s)"
  let ?s' = "s\<lparr>tenant := (tenant s)(?k := tenant_at (tenants t) ?k),
               pending := pending s @ [?k],
               allPromises := allPromises s @ [?k],
               reactions := (\<lambda>p. if p = ?k then [Finally, RaceElement ?k]
                                  else if p \<in> set (pending s) \<and> p \<notin> set (fulfilled s)
                                       then reactions s p @ [RaceElement ?k]
                                       else reactions s p),
               microtasks := microtasks s @ map (\<lambda>p. Reaction p (RaceElement ?k)) ?late,
               phase := AwaitRace ?k\<rparr>"
  from wfb assms(2) have A: "allPromises s = [0..<?k]"
    by (simp add: wf_basic_def admitted_def)
  note fresh = fresh_request [OF wfb assms(2)]
  note eq = race_admit_eq [OF wfb assms(2)]
  from wfr assms(2) have old: "\<forall>r \<in> set (resolved_races s). r < ?k"
    and oldq: "\<forall>p r. Reaction p (RaceElement r) \<in> set (microtasks s) \<longrightarrow>
                 r \<in> set (resolved_races s)"
    and oldr: "\<forall>p r. RaceElement r \<in> set (reactions s p) \<longrightarrow> r \<in> set (resolved_races s)"
    and nores: "filter is_resume_race (microtasks s) = []"
    by (auto simp: wf_races_def admitted_def)
  from old have knew: "?k \<notin> set (resolved_races s)" by auto
  have 1: "wf_basic t ?s'"
    using wfb assms(2,3) A fresh by (auto simp: wf_basic_def admitted_def)
  have late: "\<forall>p \<in> set ?late.
      p \<notin> insert ?k (set (pending s)) - {p. Reaction p Finally \<in> set (microtasks s)}"
    using wfo by (auto simp: wf_order_def)
  have ff: "finally_first (insert ?k (set (pending s)))
              (microtasks s @ map (\<lambda>p. Reaction p (RaceElement ?k)) ?late)"
    using wfo fresh finally_first_race_jobs [OF late]
    by (simp add: finally_first_append wf_order_def finally_first_insert)
  have 2: "wf_order ?s'"
    using wfo A fresh ff by (auto simp: wf_order_def)
  have 3: "wf_races ?s'"
    using old oldq oldr nores knew
    by (auto simp: wf_races_def admitted_def less_Suc_eq filter_map comp_def)
  have 5: "wf_resume ?s'"
    by (auto simp: wf_resume_def)
  have 6: "wf_all ?s'"
    using wfa assms(2) by (auto simp: wf_all_def filter_map comp_def)
  have 7: "wf_tenants t ?s'"
    using wft A by (auto simp: wf_tenants_def)
  from 1 2 3 5 6 7 show ?thesis
    unfolding eq by (simp add: invariant_def)
qed

lemma cap_race:
  assumes "invariant t s" "wf_cap t s" "phase s = Running"
  shows "wf_cap t (race (admit t s))"
proof -
  from assms(1) have wfb: "wf_basic t s" and wfr: "wf_races s"
    by (simp_all add: invariant_def)
  from wfr assms(3) have old: "\<forall>r \<in> set (resolved_races s). r < next_i s"
    and oldq: "\<forall>p r. Reaction p (RaceElement r) \<in> set (microtasks s) \<longrightarrow>
                 r \<in> set (resolved_races s)"
    by (auto simp: wf_races_def admitted_def)
  from old have knew: "next_i s \<notin> set (resolved_races s)" by auto
  from assms(2,3) have lt: "length (pending s) < concurrency t"
    by (simp add: wf_cap_def)
  from lt knew oldq show ?thesis
    unfolding race_admit_eq [OF wfb assms(3)] by (auto simp: wf_cap_def)
qed

lemma length_filter_partition:
  "length (filter (\<lambda>x. \<not> P x) xs) + length (filter P xs) = length xs"
  by (induction xs) simp_all

lemma count_list_map_all [simp]:
  "count_list (map (\<lambda>p. Reaction p rc) ps) ResumeAfterAll = 0"
  by (induction ps) simp_all

lemma filter_all_jobs [simp]:
  "filter is_all_element (map (\<lambda>p. Reaction p AllElement) ps) =
     map (\<lambda>p. Reaction p AllElement) ps"
  by (induction ps) simp_all

lemma await_all_eq:
  assumes "distinct (allPromises s)"
  shows "await_all s =
           s\<lparr>all_remaining := length (allPromises s),
             reactions := (\<lambda>k. if k \<in> set (allPromises s) \<and> k \<notin> set (fulfilled s)
                                then reactions s k @ [AllElement] else reactions s k),
             microtasks := microtasks s @
                           (map (\<lambda>p. Reaction p AllElement)
                              (filter (\<lambda>p. p \<in> set (fulfilled s)) (allPromises s)) @
                            (if length (allPromises s) = 0 then [ResumeAfterAll] else [])),
             phase := AwaitAll\<rparr>"
  unfolding await_all_def Let_def foldl_then_eq [OF assms]
  by (intro tester.equality) (simp_all add: fun_eq_iff)

lemma invariant_await_all:
  assumes "invariant t s" "phase s = Running" "\<not> next_i s < totalRequests t"
  shows "invariant t (await_all s) \<and> phase (await_all s) = AwaitAll"
proof -
  from assms(1) have wfb: "wf_basic t s" and wfo: "wf_order s" and wfr: "wf_races s"
    and wfs: "wf_resume s" and wfa: "wf_all s" and wft: "wf_tenants t s"
    by (simp_all add: invariant_def)
  let ?late = "filter (\<lambda>p. p \<in> set (fulfilled s)) (allPromises s)"
  let ?jobs = "map (\<lambda>p. Reaction p AllElement) ?late @
               (if length (allPromises s) = 0 then [ResumeAfterAll] else [])"
  let ?s' = "s\<lparr>all_remaining := length (allPromises s),
               reactions := (\<lambda>k. if k \<in> set (allPromises s) \<and> k \<notin> set (fulfilled s)
                                  then reactions s k @ [AllElement] else reactions s k),
               microtasks := microtasks s @ ?jobs,
               phase := AwaitAll\<rparr>"
  from wfb assms(2) have A: "allPromises s = [0..<next_i s]"
    and i: "next_i s = totalRequests t"
    using assms(3) by (simp_all add: wf_basic_def admitted_def)
  have da: "distinct (allPromises s)"
    using A by simp
  note eq = await_all_eq [OF da]
  from wfr assms(2) have nores: "filter is_resume_race (microtasks s) = []"
    and oldq: "\<forall>p r. Reaction p (RaceElement r) \<in> set (microtasks s) \<longrightarrow>
                 r \<in> set (resolved_races s)"
    and oldr: "\<forall>p r. RaceElement r \<in> set (reactions s p) \<longrightarrow> r \<in> set (resolved_races s)"
    and old: "\<forall>r \<in> set (resolved_races s). r < next_i s"
    by (auto simp: wf_races_def admitted_def)
  from wfa assms(2) have noall: "\<forall>k. AllElement \<notin> set (reactions s k)"
    "filter is_all_element (microtasks s) = []" "ResumeAfterAll \<notin> set (microtasks s)"
    by (simp_all add: wf_all_def)
  have 1: "wf_basic t ?s'"
    using wfb assms(2) i by (auto simp: wf_basic_def admitted_def)
  have 2: "wf_order ?s'"
    using wfo by (auto simp: wf_order_def finally_first_append finally_first_all_jobs)
  have 3: "wf_races ?s'"
    using nores oldq oldr old by (auto simp: wf_races_def admitted_def filter_map comp_def)
  have 5: "wf_resume ?s'"
    by (auto simp: wf_resume_def)
  have cnt: "length (filter (\<lambda>k. k \<notin> set (fulfilled s)) (allPromises s)) + length ?late =
             length (allPromises s)"
    by (rule length_filter_partition)
  have 6: "wf_all ?s'"
    using noall cnt
    by (auto simp: wf_all_def outstanding_def count_list_0_iff)
  have 7: "wf_tenants t ?s'"
    using wft by (auto simp: wf_tenants_def)
  from 1 2 3 5 6 7 show ?thesis
    unfolding eq by (simp add: invariant_def)
qed

lemma cap_await_all:
  assumes "invariant t s" "wf_cap t s" "phase s = Running"
  shows "wf_cap t (await_all s)"
proof -
  from assms(1,3) have "allPromises s = [0..<next_i s]"
    by (simp add: invariant_def wf_basic_def admitted_def)
  then have "distinct (allPromises s)" by simp
  from assms(2,3) show ?thesis
    unfolding await_all_eq [OF \<open>distinct (allPromises s)\<close>] by (simp add: wf_cap_def)
qed

text \<open>From its test to the next \<open>await\<close>, the loop keeps the invariant and leaves the loop.\<close>

lemma invariant_loop:
  "invariant t s \<Longrightarrow> phase s = Running \<Longrightarrow>
   invariant t (loop t s) \<and> phase (loop t s) \<noteq> Running"
proof (induction t s rule: loop.induct)
  case (1 t s)
  show ?case
  proof (cases "next_i s < totalRequests t")
    case False
    with invariant_await_all [OF "1.prems" False] show ?thesis
      by (simp add: loop.simps [of t s])
  next
    case True
    show ?thesis
    proof (cases "concurrency t \<le> length (pending (admit t s))")
      case full: True
      with invariant_race [OF "1.prems" True] True show ?thesis
        by (simp add: loop.simps [of t s] Let_def)
    next
      case room: False
      from invariant_admit_next [OF "1.prems" True]
      have "invariant t ((admit t s)\<lparr>next_i := next_i s + 1\<rparr>)"
        and "phase ((admit t s)\<lparr>next_i := next_i s + 1\<rparr>) = Running"
        by simp_all
      from "1.IH" [OF True refl room this] True room show ?thesis
        by (simp add: loop.simps [of t s] Let_def)
    qed
  qed
qed

lemma cap_loop:
  "invariant t s \<Longrightarrow> wf_cap t s \<Longrightarrow> phase s = Running \<Longrightarrow> wf_cap t (loop t s)"
proof (induction t s rule: loop.induct)
  case (1 t s)
  show ?case
  proof (cases "next_i s < totalRequests t")
    case False
    with cap_await_all [OF "1.prems"] show ?thesis
      by (simp add: loop.simps [of t s])
  next
    case True
    show ?thesis
    proof (cases "concurrency t \<le> length (pending (admit t s))")
      case full: True
      with cap_race [OF "1.prems"] True show ?thesis
        by (simp add: loop.simps [of t s] Let_def)
    next
      case room: False
      from invariant_admit_next [OF "1.prems"(1,3) True]
      have "invariant t ((admit t s)\<lparr>next_i := next_i s + 1\<rparr>)"
        and "phase ((admit t s)\<lparr>next_i := next_i s + 1\<rparr>) = Running"
        by simp_all
      from "1.IH" [OF True refl room this(1) cap_admit_next [OF "1.prems"(1,3) room] this(2)]
        True room
      show ?thesis
        by (simp add: loop.simps [of t s] Let_def)
    qed
  qed
qed

lemma next_i_loop: "next_i s \<le> next_i (loop t s)"
proof (induction t s rule: loop.induct)
  case (1 t s)
  show ?case
  proof (cases "next_i s < totalRequests t")
    case False
    then show ?thesis
      by (simp add: loop.simps [of t s] await_all_def Let_def)
  next
    case True
    show ?thesis
    proof (cases "concurrency t \<le> length (pending (admit t s))")
      case full: True
      with True show ?thesis
        by (simp add: loop.simps [of t s] Let_def race_def admit_def)
    next
      case room: False
      from "1.IH" [OF True refl room] True room show ?thesis
        by (simp add: loop.simps [of t s] Let_def admit_def)
    qed
  qed
qed

subsection \<open>The loop resumes\<close>

lemma invariant_resumed:
  assumes "invariant t s" "microtasks s = ResumeAfterRace r # q"
  shows "invariant t (s\<lparr>microtasks := q, next_i := Suc (next_i s), phase := Running\<rparr>)"
    and "phase s = AwaitRace r" and "r \<in> set (resolved_races s)"
proof -
  from assms(1) have wfb: "wf_basic t s" and wfo: "wf_order s" and wfr: "wf_races s"
    and wfs: "wf_resume s" and wfa: "wf_all s" and wft: "wf_tenants t s"
    by (simp_all add: invariant_def)
  from wfr assms(2) show ph: "phase s = AwaitRace r" and res: "r \<in> set (resolved_races s)"
    by (auto simp: wf_races_def split: phase.splits if_splits)
  from wfr assms(2) have nores: "filter is_resume_race q = []"
    by (auto simp: wf_races_def split: phase.splits if_splits)
  let ?s' = "s\<lparr>microtasks := q, next_i := Suc (next_i s), phase := Running\<rparr>"
  have 1: "wf_basic t ?s'"
    using wfb assms(2) ph by (auto simp: wf_basic_def admitted_def)
  have 2: "wf_order ?s'"
    using wfo assms(2) by (auto simp: wf_order_def)
  have 3: "wf_races ?s'"
    using wfr assms(2) ph res nores by (auto simp: wf_races_def admitted_def)
  have 5: "wf_resume ?s'"
    by (auto simp: wf_resume_def)
  have 6: "wf_all ?s'"
    using wfa assms(2) ph by (auto simp: wf_all_def)
  have 7: "wf_tenants t ?s'"
    using wft by (auto simp: wf_tenants_def)
  from 1 2 3 5 6 7 show "invariant t ?s'"
    by (simp add: invariant_def)
qed

lemma invariant_resume_race:
  assumes "invariant t s" "microtasks s = ResumeAfterRace r # q"
  shows "invariant t (run_job t c (ResumeAfterRace r) (s\<lparr>microtasks := q\<rparr>))"
proof -
  let ?s' = "s\<lparr>microtasks := q, next_i := Suc (next_i s), phase := Running\<rparr>"
  from invariant_resumed(1) [OF assms] have "invariant t (loop t ?s')"
    using invariant_loop [of t ?s'] by simp
  then show ?thesis by simp
qed

lemma cap_resume_race:
  assumes "invariant t s" "wf_cap t s" "microtasks s = ResumeAfterRace r # q"
  shows "wf_cap t (run_job t c (ResumeAfterRace r) (s\<lparr>microtasks := q\<rparr>))"
proof -
  let ?s' = "s\<lparr>microtasks := q, next_i := Suc (next_i s), phase := Running\<rparr>"
  note resumed = invariant_resumed [OF assms(1,3)]
  from assms(2) resumed(2,3) have "wf_cap t ?s'"
    by (simp add: wf_cap_def)
  with resumed(1) have "wf_cap t (loop t ?s')"
    by (rule cap_loop) simp
  then show ?thesis by simp
qed

subsection \<open>Every state of a run\<close>

lemma microtask_cases:
  assumes "step t (Microtask c) s = Some s'"
  obtains j q where "microtasks s = j # q" "s' = run_job t c j (s\<lparr>microtasks := q\<rparr>)"
  using assms by (auto split: list.splits)

lemma invariant_microtask:
  assumes "invariant t s" "step t (Microtask c) s = Some s'"
  shows "invariant t s'"
proof -
  from assms(2) obtain j q where q: "microtasks s = j # q"
    and s': "s' = run_job t c j (s\<lparr>microtasks := q\<rparr>)"
    by (rule microtask_cases)
  show ?thesis
  proof (cases j)
    case (Reaction k rc)
    with assms(1) q show ?thesis
      unfolding s'
      by (cases rc) (simp_all only: invariant_finally invariant_race_element invariant_all_element)
  next
    case (ResumeAfterRace r)
    with assms(1) q show ?thesis
      unfolding s' by (simp only: invariant_resume_race)
  next
    case ResumeAfterAll
    with assms(1) q show ?thesis
      unfolding s' by (simp only: invariant_resume_all)
  qed
qed

lemma cap_microtask:
  assumes "invariant t s" "wf_cap t s" "step t (Microtask c) s = Some s'"
  shows "wf_cap t s'"
proof -
  from assms(3) obtain j q where q: "microtasks s = j # q"
    and s': "s' = run_job t c j (s\<lparr>microtasks := q\<rparr>)"
    by (rule microtask_cases)
  show ?thesis
  proof (cases j)
    case (Reaction k rc)
    with assms(1,2) q show ?thesis
      unfolding s'
      by (cases rc) (simp_all only: cap_finally cap_race_element cap_all_element)
  next
    case (ResumeAfterRace r)
    with assms(1,2) q show ?thesis
      unfolding s' by (simp only: cap_resume_race)
  next
    case ResumeAfterAll
    with assms(1,2) q show ?thesis
      unfolding s' by (simp only: cap_resume_all)
  qed
qed

lemma invariant_step:
  "invariant t s \<Longrightarrow> step t ev s = Some s' \<Longrightarrow> invariant t s'"
  by (cases ev) (auto intro: invariant_microtask invariant_completes)

lemma cap_step:
  "invariant t s \<Longrightarrow> wf_cap t s \<Longrightarrow> step t ev s = Some s' \<Longrightarrow> wf_cap t s'"
  by (cases ev) (auto intro: cap_microtask cap_completes)

lemma invariant_run:
  "invariant t s \<Longrightarrow> run t s evs = Some s' \<Longrightarrow> invariant t s'"
proof (induction evs arbitrary: s)
  case Nil
  then show ?case by simp
next
  case (Cons ev evs)
  then show ?case
    by (auto split: option.splits dest: invariant_step)
qed

lemma cap_run:
  "invariant t s \<Longrightarrow> wf_cap t s \<Longrightarrow> run t s evs = Some s' \<Longrightarrow> wf_cap t s'"
proof (induction evs arbitrary: s)
  case Nil
  then show ?case by simp
next
  case (Cons ev evs)
  from Cons.prems(3) obtain s1 where s1: "step t ev s = Some s1" and rest: "run t s1 evs = Some s'"
    by (auto split: option.splits)
  from Cons.prems(1) s1 have "invariant t s1" by (rule invariant_step)
  moreover from Cons.prems(1,2) s1 have "wf_cap t s1" by (rule cap_step)
  ultimately show ?case using rest by (rule Cons.IH)
qed

lemma invariant_initial: "invariant t (initial c)"
  by (simp add: invariant_def initial_def wf_basic_def wf_order_def wf_races_def
      wf_resume_def wf_all_def wf_tenants_def admitted_def outstanding_def)

lemma invariant_start: "invariant t (loop t (initial c))"
  using invariant_loop [OF invariant_initial, of c t] by (simp add: initial_def)

lemma cap_start: "1 \<le> concurrency t \<Longrightarrow> wf_cap t (loop t (initial c))"
  by (rule cap_loop [OF invariant_initial]) (simp_all add: wf_cap_def initial_def)

lemma invariant_reachable: "runLoadTest t c evs = Some s \<Longrightarrow> invariant t s"
  unfolding runLoadTest_def using invariant_start by (rule invariant_run)

lemma cap_reachable:
  "1 \<le> concurrency t \<Longrightarrow> runLoadTest t c evs = Some s \<Longrightarrow> wf_cap t s"
  unfolding runLoadTest_def using invariant_start cap_start by (rule cap_run)

subsection \<open>The cap\<close>

lemma length_outstanding_le_pending:
  assumes "wf_basic t s"
  shows "length (outstanding s) \<le> length (pending s)"
proof -
  from assms have "distinct (allPromises s)" by (simp add: wf_basic_def)
  then have d: "distinct (outstanding s)" by (simp add: outstanding_def)
  from assms have "set (outstanding s) \<subseteq> set (pending s)"
    by (auto simp: wf_basic_def outstanding_def)
  then have "card (set (outstanding s)) \<le> card (set (pending s))"
    by (intro card_mono) simp_all
  also have "\<dots> \<le> length (pending s)" by (rule card_length)
  finally show ?thesis using d by (simp add: distinct_card)
qed

lemma run_job_idle:
  assumes "\<not> is_resume_race j"
  shows "allPromises (run_job t c j s) = allPromises s"
    and "next_i (run_job t c j s) = next_i s"
    and "phase s \<noteq> Running \<Longrightarrow> phase (run_job t c j s) \<noteq> Running"
proof -
  show "allPromises (run_job t c j s) = allPromises s"
  proof (cases j)
    case (Reaction k rc)
    then show ?thesis by (cases rc) (auto simp: Let_def)
  qed (use assms in auto)
  show "next_i (run_job t c j s) = next_i s"
  proof (cases j)
    case (Reaction k rc)
    then show ?thesis by (cases rc) (auto simp: Let_def)
  qed (use assms in auto)
  show "phase s \<noteq> Running \<Longrightarrow> phase (run_job t c j s) \<noteq> Running"
  proof (cases j)
    case (Reaction k rc)
    then show "phase s \<noteq> Running \<Longrightarrow> phase (run_job t c j s) \<noteq> Running"
      by (cases rc) (auto simp: Let_def)
  qed (use assms in auto)
qed

lemma run_append:
  "run t s (xs @ ys) = (case run t s xs of None \<Rightarrow> None | Some s' \<Rightarrow> run t s' ys)"
  by (induction xs arbitrary: s) (auto split: option.splits)

lemma not_running_step:
  assumes "invariant t s" "phase s \<noteq> Running" "step t ev s = Some s'"
  shows "phase s' \<noteq> Running"
proof (cases ev)
  case (Completes k env)
  with assms(3) have "step t (Completes k env) s = Some s'" by simp
  then obtain result where "k \<in> set (allPromises s)" "k \<notin> set (fulfilled s)"
    "snd (queryDataset env (tenant s k) (dataset_arg t) (rows_arg t)) = Some result"
    "s' = s\<lparr>results := results s @ [result], fulfilled := fulfilled s @ [k],
            microtasks := microtasks s @ map (Reaction k) (reactions s k)\<rparr>"
    by (rule completes_cases)
  with assms(2) show ?thesis by simp
next
  case (Microtask c)
  with assms(3) have "step t (Microtask c) s = Some s'" by simp
  then obtain j q where q: "microtasks s = j # q"
    and s': "s' = run_job t c j (s\<lparr>microtasks := q\<rparr>)"
    by (rule microtask_cases)
  show ?thesis
  proof (cases "is_resume_race j")
    case True
    then obtain r where j: "j = ResumeAfterRace r" by (cases j) auto
    from invariant_resumed(1) [OF assms(1) q [unfolded j]]
    have "phase (loop t (s\<lparr>microtasks := q, next_i := Suc (next_i s), phase := Running\<rparr>))
            \<noteq> Running"
      using invariant_loop by simp
    then show ?thesis by (simp add: s' j)
  next
    case False
    with assms(2) show ?thesis
      unfolding s' by (simp add: run_job_idle(3))
  qed
qed

lemma not_running_run:
  "invariant t s \<Longrightarrow> phase s \<noteq> Running \<Longrightarrow> run t s evs = Some s' \<Longrightarrow> phase s' \<noteq> Running"
proof (induction evs arbitrary: s)
  case Nil
  then show ?case by simp
next
  case (Cons ev evs)
  from Cons.prems(3) obtain s1 where s1: "step t ev s = Some s1" and rest: "run t s1 evs = Some s'"
    by (auto split: option.splits)
  from Cons.prems(1) s1 have "invariant t s1" by (rule invariant_step)
  moreover from Cons.prems(1,2) s1 have "phase s1 \<noteq> Running" by (rule not_running_step)
  ultimately show ?case using rest by (rule Cons.IH)
qed

lemma not_running_reachable: "runLoadTest t c evs = Some s \<Longrightarrow> phase s \<noteq> Running"
proof -
  assume run: "runLoadTest t c evs = Some s"
  have "phase (loop t (initial c)) \<noteq> Running"
    using invariant_loop [OF invariant_initial, of c t] by (simp add: initial_def)
  with invariant_start show ?thesis
    using run unfolding runLoadTest_def by (rule not_running_run)
qed

subsection \<open>Draining the microtask queue\<close>

text \<open>A job that neither resumes the loop nor resolves the current race leaves both as they are.\<close>

lemma idle_job:
  assumes inv: "invariant t s" and ph: "phase s = AwaitRace r" and q: "microtasks s = j # q"
    and nr: "\<not> is_resume_race j"
    and stale: "\<forall>k. j = Reaction k (RaceElement r) \<longrightarrow> r \<in> set (resolved_races s)"
  shows "\<exists>s'. step t (Microtask c) s = Some s' \<and> invariant t s' \<and> phase s' = AwaitRace r \<and>
              next_i s' = next_i s \<and> microtasks s' = q \<and>
              resolved_races s' = resolved_races s"
proof -
  let ?s' = "run_job t c j (s\<lparr>microtasks := q\<rparr>)"
  have st: "step t (Microtask c) s = Some ?s'" using q by simp
  with inv have inv': "invariant t ?s'" by (rule invariant_microtask)
  from inv have wfr: "wf_races s" and wfa: "wf_all s" by (simp_all add: invariant_def)
  have "phase ?s' = AwaitRace r \<and> next_i ?s' = next_i s \<and> microtasks ?s' = q \<and>
        resolved_races ?s' = resolved_races s"
  proof (cases j)
    case (Reaction k rc)
    show ?thesis
    proof (cases rc)
      case Finally
      with Reaction ph show ?thesis by simp
    next
      case (RaceElement r')
      from wfr q Reaction RaceElement ph stale have "r' \<in> set (resolved_races s)"
        by (auto simp: wf_races_def)
      with Reaction RaceElement ph show ?thesis by simp
    next
      case AllElement
      with wfa q Reaction ph show ?thesis by (simp add: wf_all_def)
    qed
  next
    case (ResumeAfterRace r')
    with nr show ?thesis by simp
  next
    case ResumeAfterAll
    with wfa q ph show ?thesis by (simp add: wf_all_def)
  qed
  with st inv' show ?thesis by blast
qed

lemma drain_resolved:
  assumes "invariant t s" "phase s = AwaitRace r"
    "microtasks s = pre @ ResumeAfterRace r # post"
  shows "\<exists>s2. run t s (replicate (Suc (length pre)) (Microtask c)) = Some s2 \<and>
              next_i s < next_i s2 \<and> invariant t s2"
  using assms
proof (induction pre arbitrary: s)
  case Nil
  let ?s0 = "s\<lparr>microtasks := post, next_i := Suc (next_i s), phase := Running\<rparr>"
  have st: "step t (Microtask c) s = Some (loop t ?s0)" using Nil.prems(3) by simp
  with Nil.prems(1) have "invariant t (loop t ?s0)" by (rule invariant_microtask)
  moreover have "next_i s < next_i (loop t ?s0)"
    using next_i_loop [of ?s0 t] by simp
  ultimately show ?case using st by simp
next
  case (Cons j pre)
  from Cons.prems(1) have wfr: "wf_races s" by (simp add: invariant_def)
  from wfr Cons.prems(2,3) have res: "r \<in> set (resolved_races s)"
    and nr: "\<not> is_resume_race j"
    by (auto simp: wf_races_def split: if_splits)
  from idle_job [OF Cons.prems(1,2), of j "pre @ ResumeAfterRace r # post" c] Cons.prems(3) nr res
  obtain s' where st: "step t (Microtask c) s = Some s'" and inv': "invariant t s'"
    and ph': "phase s' = AwaitRace r" and i': "next_i s' = next_i s"
    and q': "microtasks s' = pre @ ResumeAfterRace r # post"
    by auto
  from Cons.IH [OF inv' ph' q'] obtain s2 where
    "run t s' (replicate (Suc (length pre)) (Microtask c)) = Some s2"
    "next_i s' < next_i s2" "invariant t s2"
    by blast
  with st i' show ?case by simp
qed

lemma drain_unresolved:
  assumes "invariant t s" "phase s = AwaitRace r" "r \<notin> set (resolved_races s)"
    "microtasks s = pre @ Reaction k (RaceElement r) # post"
    "\<forall>j \<in> set pre. \<forall>k'. j \<noteq> Reaction k' (RaceElement r)"
  shows "\<exists>s'. run t s (replicate (Suc (length pre)) (Microtask c)) = Some s' \<and>
              invariant t s' \<and> phase s' = AwaitRace r \<and> next_i s' = next_i s \<and>
              r \<in> set (resolved_races s')"
  using assms
proof (induction pre arbitrary: s)
  case Nil
  let ?s' = "s\<lparr>resolved_races := r # resolved_races s,
               microtasks := post @ [ResumeAfterRace r]\<rparr>"
  have st: "step t (Microtask c) s = Some ?s'" using Nil.prems(3,4) by simp
  with Nil.prems(1) have "invariant t ?s'" by (rule invariant_microtask)
  with st Nil.prems(2) show ?case by simp
next
  case (Cons j pre)
  from Cons.prems(1) have wfr: "wf_races s" by (simp add: invariant_def)
  from wfr Cons.prems(2,3,4) have nr: "\<not> is_resume_race j"
    by (auto simp: wf_races_def split: if_splits)
  from Cons.prems(5) have stale: "\<forall>k'. j = Reaction k' (RaceElement r) \<longrightarrow>
      r \<in> set (resolved_races s)"
    by auto
  from idle_job [OF Cons.prems(1,2), of j "pre @ Reaction k (RaceElement r) # post" c]
    Cons.prems(4) nr stale
  obtain s' where st: "step t (Microtask c) s = Some s'" and inv': "invariant t s'"
    and ph': "phase s' = AwaitRace r" and i': "next_i s' = next_i s"
    and q': "microtasks s' = pre @ Reaction k (RaceElement r) # post"
    and r': "resolved_races s' = resolved_races s"
    by auto
  from Cons.prems(3) r' have nres: "r \<notin> set (resolved_races s')" by simp
  from Cons.prems(5) have pre: "\<forall>j \<in> set pre. \<forall>k'. j \<noteq> Reaction k' (RaceElement r)" by simp
  from Cons.IH [OF inv' ph' nres q' pre] obtain s2 where
    "run t s' (replicate (Suc (length pre)) (Microtask c)) = Some s2"
    "invariant t s2" "phase s2 = AwaitRace r" "next_i s2 = next_i s'"
    "r \<in> set (resolved_races s2)"
    by blast
  with st i' show ?case by simp
qed

lemma resume_when_resolved:
  assumes "invariant t s" "phase s = AwaitRace r" "r \<in> set (resolved_races s)"
  shows "\<exists>n s2. run t s (replicate n (Microtask c)) = Some s2 \<and> next_i s < next_i s2 \<and>
                invariant t s2"
proof -
  from assms have "ResumeAfterRace r \<in> set (filter is_resume_race (microtasks s))"
    by (simp add: invariant_def wf_races_def)
  then have "ResumeAfterRace r \<in> set (microtasks s)" by simp
  then obtain pre post where "microtasks s = pre @ ResumeAfterRace r # post"
    by (auto simp: in_set_conv_decomp)
  from drain_resolved [OF assms(1,2) this] show ?thesis by blast
qed

lemma resume_when_triggered:
  assumes "invariant t s" "phase s = AwaitRace r"
    "Reaction k (RaceElement r) \<in> set (microtasks s)"
  shows "\<exists>n s2. run t s (replicate n (Microtask c)) = Some s2 \<and> next_i s < next_i s2 \<and>
                invariant t s2"
proof (cases "r \<in> set (resolved_races s)")
  case True
  with assms(1,2) show ?thesis by (rule resume_when_resolved)
next
  case False
  from assms(3) have "\<exists>j \<in> set (microtasks s). \<exists>k'. j = Reaction k' (RaceElement r)"
    by blast
  then obtain pre j post where split: "microtasks s = pre @ j # post"
    and j: "\<exists>k'. j = Reaction k' (RaceElement r)"
    and pre: "\<forall>j' \<in> set pre. \<not> (\<exists>k'. j' = Reaction k' (RaceElement r))"
    by (auto dest!: split_list_first_prop)
  from j obtain k' where "j = Reaction k' (RaceElement r)" ..
  with split have q: "microtasks s = pre @ Reaction k' (RaceElement r) # post" by simp
  from pre have pre': "\<forall>j \<in> set pre. \<forall>k'. j \<noteq> Reaction k' (RaceElement r)" by blast
  from drain_unresolved [OF assms(1,2) False q pre', of c] obtain s1 where
    r1: "run t s (replicate (Suc (length pre)) (Microtask c)) = Some s1"
    and inv1: "invariant t s1" and ph1: "phase s1 = AwaitRace r"
    and i1: "next_i s1 = next_i s" and res1: "r \<in> set (resolved_races s1)"
    by blast
  from resume_when_resolved [OF inv1 ph1 res1, of c] obtain n s2 where
    r2: "run t s1 (replicate n (Microtask c)) = Some s2" and i2: "next_i s1 < next_i s2"
    and inv2: "invariant t s2"
    by blast
  from r1 r2 have "run t s (replicate (Suc (length pre) + n) (Microtask c)) = Some s2"
    by (simp only: replicate_add run_append) simp
  moreover from i1 i2 have "next_i s < next_i s2" by simp
  ultimately show ?thesis using inv2 by blast
qed

subsection \<open>Running the model on concrete load tests\<close>

lemmas eval_simps =
  runLoadTest_def loop.simps initial_def admit_def race_def await_all_def then_reaction_def
  set_add_def set_delete_def tenant_at_def Let_def outstanding_def
  queryDataset_def getFlightInfo_def first_endpoint_def error_result_def env_no_endpoints_def
  descriptor_path_def

subsection \<open>The concurrency cap\<close>

text \<open>
  Claim C2. With a cap of at least 1, in every state of every run: the requests that have
  been started and have not completed are at most \<open>concurrency\<close>. When they are as many as
  the cap, \<open>runLoadTest\<close> is suspended at the \<open>await\<close> of line 50 in the current iteration,
  and no step that can happen next starts a request. And when \<open>runLoadTest\<close> is suspended
  there and any request that is outstanding completes, running the microtask queue resumes
  the loop: after finitely many jobs the loop variable has advanced, and the next request,
  if there is one (\<open>r + 1 < totalRequests\<close>), has been started.
\<close>

theorem runLoadTest_concurrency_cap:
  assumes "1 \<le> concurrency t" and "runLoadTest t clock evs = Some s"
  shows "length (outstanding s) \<le> concurrency t \<and>
         (concurrency t \<le> length (outstanding s) \<longrightarrow>
            phase s = AwaitRace (next_i s) \<and>
            (step t ev s = Some s' \<longrightarrow> allPromises s' = allPromises s)) \<and>
         (phase s = AwaitRace r \<and> step t (Completes k env) s = Some s1 \<longrightarrow>
            (\<exists>n s2. run t s1 (replicate n (Microtask c)) = Some s2 \<and>
                    next_i s1 < next_i s2 \<and>
                    (Suc r < totalRequests t \<longrightarrow> Suc r \<in> set (allPromises s2))))"
proof (intro conjI impI)
  from assms(2) have inv: "invariant t s" by (rule invariant_reachable)
  from assms have cap: "wf_cap t s" by (rule cap_reachable)
  from inv have wfb: "wf_basic t s" by (simp add: invariant_def)
  have le: "length (outstanding s) \<le> length (pending s)"
    using wfb by (rule length_outstanding_le_pending)
  with cap show "length (outstanding s) \<le> concurrency t"
    by (simp add: wf_cap_def)
  {
    assume full: "concurrency t \<le> length (outstanding s)"
    with le have pfull: "\<not> length (pending s) < concurrency t" by simp
    with cap obtain r' where ph: "phase s = AwaitRace r'"
      by (cases "phase s") (simp_all add: wf_cap_def)
    with wfb show "phase s = AwaitRace (next_i s)" by (simp add: wf_basic_def)
    {
      assume st: "step t ev s = Some s'"
      show "allPromises s' = allPromises s"
      proof (cases ev)
        case (Completes k' env')
        with st have "step t (Completes k' env') s = Some s'" by simp
        then obtain result where "k' \<in> set (allPromises s)" "k' \<notin> set (fulfilled s)"
          "snd (queryDataset env' (tenant s k') (dataset_arg t) (rows_arg t)) = Some result"
          "s' = s\<lparr>results := results s @ [result], fulfilled := fulfilled s @ [k'],
                  microtasks := microtasks s @ map (Reaction k') (reactions s k')\<rparr>"
          by (rule completes_cases)
        then show ?thesis by simp
      next
        case (Microtask c')
        with st have "step t (Microtask c') s = Some s'" by simp
        then obtain j q where q: "microtasks s = j # q"
          and s': "s' = run_job t c' j (s\<lparr>microtasks := q\<rparr>)"
          by (rule microtask_cases)
        have "\<not> is_resume_race j"
        proof
          assume "is_resume_race j"
          then obtain r'' where "j = ResumeAfterRace r''" by (cases j) auto
          with q have "microtasks s = ResumeAfterRace r'' # q" by simp
          from invariant_resumed(2,3) [OF inv this] cap pfull show False
            by (simp add: wf_cap_def)
        qed
        then show ?thesis by (simp add: s' run_job_idle(1))
      qed
    }
  }
  {
    assume a: "phase s = AwaitRace r \<and> step t (Completes k env) s = Some s1"
    then have ph: "phase s = AwaitRace r" and st: "step t (Completes k env) s = Some s1"
      by simp_all
    from st obtain result where k: "k \<in> set (allPromises s)" "k \<notin> set (fulfilled s)"
      and "snd (queryDataset env (tenant s k) (dataset_arg t) (rows_arg t)) = Some result"
      and s1: "s1 = s\<lparr>results := results s @ [result], fulfilled := fulfilled s @ [k],
                      microtasks := microtasks s @ map (Reaction k) (reactions s k)\<rparr>"
      by (rule completes_cases)
    from inv st have inv1: "invariant t s1" by (rule invariant_step)
    from ph s1 have ph1: "phase s1 = AwaitRace r" by simp
    from wfb ph have r: "r = next_i s" by (simp add: wf_basic_def)
    with s1 have i1: "next_i s1 = r" by simp
    have "\<exists>n s2. run t s1 (replicate n (Microtask c)) = Some s2 \<and> next_i s1 < next_i s2 \<and>
                  invariant t s2"
    proof (cases "r \<in> set (resolved_races s1)")
      case True
      with inv1 ph1 show ?thesis by (rule resume_when_resolved)
    next
      case False
      with s1 have "r \<notin> set (resolved_races s)" by simp
      moreover from wfb k have "k \<in> set (pending s)" by (simp add: wf_basic_def)
      moreover from inv have "wf_resume s" by (simp add: invariant_def)
      ultimately have "RaceElement r \<in> set (reactions s k)"
        using ph k(2) by (auto simp: wf_resume_def)
      then have "Reaction k (RaceElement r) \<in> set (microtasks s1)"
        by (simp add: s1)
      with inv1 ph1 show ?thesis by (rule resume_when_triggered)
    qed
    then obtain n s2 where run2: "run t s1 (replicate n (Microtask c)) = Some s2"
      and i2: "next_i s1 < next_i s2" and inv2: "invariant t s2"
      by blast
    from ph1 have "phase s1 \<noteq> Running" by simp
    with inv1 have nr2: "phase s2 \<noteq> Running" using run2 by (rule not_running_run)
    from inv2 have wfb2: "wf_basic t s2" by (simp add: invariant_def)
    have "Suc r < totalRequests t \<longrightarrow> Suc r \<in> set (allPromises s2)"
      using wfb2 nr2 i1 i2
      by (cases "phase s2") (auto simp: wf_basic_def admitted_def)
    with run2 i2
    show "\<exists>n s2. run t s1 (replicate n (Microtask c)) = Some s2 \<and> next_i s1 < next_i s2 \<and>
                 (Suc r < totalRequests t \<longrightarrow> Suc r \<in> set (allPromises s2))"
      by blast
  }
qed

text \<open>
  The theorem at a load test of two requests with a cap of 1: after the call one request is
  outstanding, the cap is reached and \<open>runLoadTest\<close> waits; when request 0 completes no
  request is started by that step, and draining the queue starts request 1.
\<close>

theorem runLoadTest_concurrency_cap_witness:
  "\<exists>s s1. 1 \<le> concurrency two_test \<and> runLoadTest two_test 0 [] = Some s \<and>
          concurrency two_test \<le> length (outstanding s) \<and>
          phase s = AwaitRace 0 \<and>
          step two_test (Completes 0 env_no_endpoints) s = Some s1 \<and>
          Suc 0 < totalRequests two_test \<and>
          length (outstanding s) \<le> concurrency two_test \<and>
          allPromises s1 = allPromises s \<and>
          (\<exists>n s2. run two_test s1 (replicate n (Microtask 0)) = Some s2 \<and>
                  next_i s1 < next_i s2 \<and> Suc 0 \<in> set (allPromises s2))"
proof -
  have c: "1 \<le> concurrency two_test" and n: "Suc 0 < totalRequests two_test"
    by (simp_all add: two_test_def)
  have "\<exists>s s1. runLoadTest two_test 0 [] = Some s \<and>
          concurrency two_test \<le> length (outstanding s) \<and> phase s = AwaitRace 0 \<and>
          step two_test (Completes 0 env_no_endpoints) s = Some s1"
    by (simp add: eval_simps two_test_def)
  then obtain s s1 where run: "runLoadTest two_test 0 [] = Some s"
    and full: "concurrency two_test \<le> length (outstanding s)"
    and ph: "phase s = AwaitRace 0"
    and st: "step two_test (Completes 0 env_no_endpoints) s = Some s1"
    by blast
  from runLoadTest_concurrency_cap
    [OF c run, of "Completes 0 env_no_endpoints" s1 0 0 env_no_endpoints s1 0]
    full ph st n
  have "length (outstanding s) \<le> concurrency two_test \<and>
        allPromises s1 = allPromises s \<and>
        (\<exists>n s2. run two_test s1 (replicate n (Microtask 0)) = Some s2 \<and>
                next_i s1 < next_i s2 \<and> Suc 0 \<in> set (allPromises s2))"
    by simp
  with c n run full ph st show ?thesis by blast
qed

subsection \<open>The counts of a completed run\<close>

lemma all_fulfilled_length:
  assumes "distinct fs" "set fs \<subseteq> {0..<n}" "\<forall>k < n. k \<in> set fs"
  shows "length fs = n"
proof -
  from assms(2,3) have "set fs = {0..<n}" by auto
  then have "card (set fs) = n" by simp
  with assms(1) show ?thesis by (simp add: distinct_card)
qed

text \<open>
  Claim C7. When \<open>runLoadTest\<close> has returned, whatever the order in which the requests
  completed, the \<open>results\<close> array holds exactly \<open>totalRequests\<close> results, and the metrics
  report \<open>total_requests = totalRequests\<close>, with \<open>successful\<close> the number of results of status
  Success, \<open>failed\<close> the number of the others, and \<open>successful + failed = total_requests\<close>.
\<close>

theorem runLoadTest_counts:
  assumes "runLoadTest t clock evs = Some s" and "phase s = Returned m"
  shows "total_requests m = totalRequests t \<and>
         successful m + failed m = total_requests m \<and>
         successful m = length (filter (\<lambda>r. status r = Success) (results s)) \<and>
         failed m = length (filter (\<lambda>r. status r \<noteq> Success) (results s)) \<and>
         length (results s) = totalRequests t"
proof -
  from assms(1) have inv: "invariant t s" by (rule invariant_reachable)
  then have wfb: "wf_basic t s" and wfa: "wf_all s" by (simp_all add: invariant_def)
  from wfa assms(2) obtain d where out: "outstanding s = []"
    and m: "m = calculateMetrics (results s) d"
    by (auto simp: wf_all_def)
  from wfb assms(2) have A: "allPromises s = [0..<totalRequests t]"
    by (simp add: wf_basic_def admitted_def)
  from out A have all: "\<forall>k < totalRequests t. k \<in> set (fulfilled s)"
    by (auto simp: outstanding_def filter_empty_conv)
  from wfb A have "distinct (fulfilled s)" "set (fulfilled s) \<subseteq> {0..<totalRequests t}"
    by (auto simp: wf_basic_def)
  from this all have "length (fulfilled s) = totalRequests t"
    by (rule all_fulfilled_length)
  with wfb have len: "length (results s) = totalRequests t"
    by (simp add: wf_basic_def)
  have part: "length (filter (\<lambda>r. status r = Success) (results s)) +
              length (filter (\<lambda>r. status r \<noteq> Success) (results s)) = length (results s)"
    using length_filter_partition [of "\<lambda>r. status r \<noteq> Success" "results s"] by simp
  from len part show ?thesis
    by (simp add: m calculateMetrics_def Let_def)
qed

text \<open>
  The theorem at a run of one request against a server without endpoints: the request
  completes, the five jobs run, and \<open>runLoadTest\<close> returns one failed request.
\<close>

theorem runLoadTest_counts_witness:
  "\<exists>s m. runLoadTest sequential_test 0
           [Completes 0 env_no_endpoints, Microtask 1, Microtask 1, Microtask 1, Microtask 1,
            Microtask 2000] = Some s \<and>
         phase s = Returned m \<and>
         total_requests m = 1 \<and> successful m = 0 \<and> failed m = 1 \<and> length (results s) = 1"
proof -
  have "\<exists>s m. runLoadTest sequential_test 0
           [Completes 0 env_no_endpoints, Microtask 1, Microtask 1, Microtask 1, Microtask 1,
            Microtask 2000] = Some s \<and> phase s = Returned m"
    by (simp add: eval_simps sequential_test_def)
  then obtain s m where run: "runLoadTest sequential_test 0
           [Completes 0 env_no_endpoints, Microtask 1, Microtask 1, Microtask 1, Microtask 1,
            Microtask 2000] = Some s" and ph: "phase s = Returned m"
    by blast
  have st: "map status (results s) = [Error]"
    using run by (auto simp add: eval_simps sequential_test_def)
  from runLoadTest_counts [OF run ph] st have
    "total_requests m = 1 \<and> successful m = 0 \<and> failed m = 1 \<and> length (results s) = 1"
    by (cases "results s") (auto simp: sequential_test_def)
  with run ph show ?thesis by blast
qed

subsection \<open>The tenant of each request\<close>

text \<open>
  Claim C9. With a non-empty tenant list, in every state of every run (whatever the order
  of completions) each request \<open>k\<close> that has been started was given the tenant
  \<open>tenants[k mod N]\<close>, the results carry the tenants of their requests in completion order,
  and when \<open>runLoadTest\<close> has returned the requests started are exactly
  \<open>0, ..., totalRequests - 1\<close>.
\<close>

theorem runLoadTest_tenants:
  assumes "runLoadTest t clock evs = Some s" and "tenants t \<noteq> []"
  shows "(k \<in> set (allPromises s) \<longrightarrow>
            tenant s k = Some (tenants t ! (k mod length (tenants t)))) \<and>
         map tenant_id (results s) =
           map (\<lambda>k. Some (tenants t ! (k mod length (tenants t)))) (fulfilled s) \<and>
         (phase s = Returned m \<longrightarrow> allPromises s = [0..<totalRequests t])"
proof -
  from assms(1) have inv: "invariant t s" by (rule invariant_reachable)
  then have wfb: "wf_basic t s" and wft: "wf_tenants t s" by (simp_all add: invariant_def)
  from assms(2)
  have at: "tenant_at (tenants t) = (\<lambda>k. Some (tenants t ! (k mod length (tenants t))))"
    by (simp add: tenant_at_def fun_eq_iff)
  from wft have 1: "k \<in> set (allPromises s) \<longrightarrow>
            tenant s k = Some (tenants t ! (k mod length (tenants t)))"
    by (simp add: wf_tenants_def at)
  from wft have 2: "map tenant_id (results s) =
           map (\<lambda>k. Some (tenants t ! (k mod length (tenants t)))) (fulfilled s)"
    by (simp add: wf_tenants_def at)
  from wfb have 3: "phase s = Returned m \<longrightarrow> allPromises s = [0..<totalRequests t]"
    by (auto simp: wf_basic_def admitted_def)
  from 1 2 3 show ?thesis by simp
qed

text \<open>
  The theorem at a completed run of two requests over the tenants \<open>a\<close> and \<open>b\<close>:
  request 1 has tenant \<open>b\<close>.
\<close>

theorem runLoadTest_tenants_witness:
  "\<exists>s m. runLoadTest two_test 0
           [Completes 0 env_no_endpoints, Microtask 1, Microtask 1, Microtask 1,
            Completes 1 env_no_endpoints, Microtask 2, Microtask 2, Microtask 2, Microtask 2,
            Microtask 2, Microtask 2] = Some s \<and>
         phase s = Returned m \<and> 1 \<in> set (allPromises s) \<and>
         tenant s 1 = Some ''b'' \<and>
         map tenant_id (results s) =
           map (\<lambda>k. Some (tenants two_test ! (k mod length (tenants two_test)))) (fulfilled s) \<and>
         allPromises s = [0..<2]"
proof -
  let ?evs = "[Completes 0 env_no_endpoints, Microtask 1, Microtask 1, Microtask 1,
            Completes 1 env_no_endpoints, Microtask 2, Microtask 2, Microtask 2, Microtask 2,
            Microtask 2, Microtask 2]"
  have "\<exists>s m. runLoadTest two_test 0 ?evs = Some s \<and> phase s = Returned m"
    by (simp add: eval_simps two_test_def)
  then obtain s m where run: "runLoadTest two_test 0 ?evs = Some s" and ph: "phase s = Returned m"
    by blast
  have ne: "tenants two_test \<noteq> []" by (simp add: two_test_def)
  from runLoadTest_tenants [OF run ne, of 1 m] ph
  have "1 \<in> set (allPromises s) \<and> tenant s 1 = Some ''b'' \<and>
         map tenant_id (results s) =
           map (\<lambda>k. Some (tenants two_test ! (k mod length (tenants two_test)))) (fulfilled s) \<and>
         allPromises s = [0..<2]"
    by (simp add: two_test_def)
  with run ph show ?thesis by blast
qed

subsection \<open>A load test of no request\<close>

lemma calculateMetrics_Nil:
  "calculateMetrics [] d =
     \<lparr>total_requests = 0, successful = 0, failed = 0, total_rows = 0, total_bytes = 0,
      duration_s = d, throughput = js_divide 0 d, avg_latency_ms = 0, p95_latency_ms = Some 0\<rparr>"
  by (simp add: calculateMetrics_def)

text \<open>
  Claim C10. With \<open>totalRequests = 0\<close> the loop is skipped and \<open>Promise.all\<close> of the empty
  array is resolved at once: when the clock has advanced, the next job returns metrics whose
  counts, rows, bytes, average and percentile are 0 and whose throughput is 0. And in any run
  with \<open>totalRequests = 0\<close>, metrics returned with a positive duration are these.
\<close>

theorem runLoadTest_zero_requests:
  assumes "totalRequests t = 0"
  shows "(clock < clock' \<longrightarrow>
           (\<exists>s. runLoadTest t clock [Microtask clock'] = Some s \<and>
                phase s = Returned
                  \<lparr>total_requests = 0, successful = 0, failed = 0, total_rows = 0,
                   total_bytes = 0, duration_s = (clock' - clock) / 1000,
                   throughput = Finite 0, avg_latency_ms = 0, p95_latency_ms = Some 0\<rparr>)) \<and>
         (runLoadTest t clock evs = Some s' \<and> phase s' = Returned m \<and> 0 < duration_s m \<longrightarrow>
            m = \<lparr>total_requests = 0, successful = 0, failed = 0, total_rows = 0,
                 total_bytes = 0, duration_s = duration_s m,
                 throughput = Finite 0, avg_latency_ms = 0, p95_latency_ms = Some 0\<rparr>)"
proof (intro conjI impI)
  assume "clock < clock'"
  then show "\<exists>s. runLoadTest t clock [Microtask clock'] = Some s \<and>
                phase s = Returned
                  \<lparr>total_requests = 0, successful = 0, failed = 0, total_rows = 0,
                   total_bytes = 0, duration_s = (clock' - clock) / 1000,
                   throughput = Finite 0, avg_latency_ms = 0, p95_latency_ms = Some 0\<rparr>"
    using assms
    by (simp add: runLoadTest_def loop.simps [of t "initial clock"] await_all_def)
      (simp add: initial_def calculateMetrics_Nil js_divide_def)
next
  assume a: "runLoadTest t clock evs = Some s' \<and> phase s' = Returned m \<and> 0 < duration_s m"
  then have "runLoadTest t clock evs = Some s'" by simp
  then have inv: "invariant t s'" by (rule invariant_reachable)
  then have wfb: "wf_basic t s'" and wfa: "wf_all s'" by (simp_all add: invariant_def)
  from wfa a obtain d where m: "m = calculateMetrics (results s') d"
    by (auto simp: wf_all_def)
  from wfb a assms have "allPromises s' = []"
    by (simp add: wf_basic_def admitted_def)
  with wfb have "results s' = []" by (auto simp: wf_basic_def)
  with m have m': "m = calculateMetrics [] d" by simp
  then have "duration_s m = d" by (simp add: calculateMetrics_Nil)
  with a m' show "m = \<lparr>total_requests = 0, successful = 0, failed = 0, total_rows = 0,
                 total_bytes = 0, duration_s = duration_s m,
                 throughput = Finite 0, avg_latency_ms = 0, p95_latency_ms = Some 0\<rparr>"
    by (simp add: calculateMetrics_Nil js_divide_def)
qed

text \<open>The theorem at a load test of no request that takes two seconds.\<close>

theorem runLoadTest_zero_requests_witness:
  "totalRequests empty_test = 0 \<and> (5 :: real) < 2005 \<and>
   (\<exists>s m. runLoadTest empty_test 5 [Microtask 2005] = Some s \<and> phase s = Returned m \<and>
          0 < duration_s m \<and>
          m = \<lparr>total_requests = 0, successful = 0, failed = 0, total_rows = 0,
               total_bytes = 0, duration_s = 2,
               throughput = Finite 0, avg_latency_ms = 0, p95_latency_ms = Some 0\<rparr>)"
proof -
  let ?m = "\<lparr>total_requests = 0, successful = 0, failed = 0, total_rows = 0,
             total_bytes = 0, duration_s = 2,
             throughput = Finite 0, avg_latency_ms = 0, p95_latency_ms = Some 0\<rparr>"
  have z: "totalRequests empty_test = 0" by (simp add: empty_test_def)
  have "\<exists>s. runLoadTest empty_test 5 [Microtask 2005] = Some s \<and> phase s = Returned ?m"
    using runLoadTest_zero_requests [OF z, of 5 2005, THEN conjunct1] by simp
  then obtain s where
    run: "runLoadTest empty_test 5 [Microtask 2005] = Some s" and ph: "phase s = Returned ?m"
    by blast
  have pos: "0 < duration_s ?m" by simp
  from runLoadTest_zero_requests [OF z, of 5 2005 "[Microtask 2005]" s ?m] run ph pos
  have "?m = ?m\<lparr>duration_s := duration_s ?m\<rparr>" by simp
  with z run ph pos show ?thesis by simp
qed

end
